theory Spec2Isabelle
  imports Complex_Main
begin

section \<open>The host tree\<close>

text \<open>
  The morphing engine of \<^verbatim>\<open>src/src/morphlex.ts\<close> works on a tree of nodes that the host
  supplies.  Nodes are objects with identity, so the tree is a store from addresses to
  node records; a node names its children and its parent by address.  The fields are the
  properties that the source reads or writes.  \<open>inputType\<close>, \<open>inputName\<close> and \<open>curValue\<close>
  stand for the properties \<^verbatim>\<open>type\<close>, \<^verbatim>\<open>name\<close> and \<^verbatim>\<open>value\<close>.
  The host's reflection of content attributes into properties is not part of the source
  and is not modelled: properties are stored fields of their own.
\<close>

record node =
  nodeType :: nat
  localName :: string
  attributes :: "(string \<times> string) list"
  childNodes :: "nat list"
  parentNode :: "nat option"
  nodeValue :: "string option"
  inputType :: string
  inputName :: string
  curValue :: string
  defaultValue :: string
  checked :: bool
  disabled :: bool
  indeterminate :: bool
  selected :: bool
  ended :: bool
  paused :: bool
  currentTime :: real
  ariaBusy :: "string option"

text \<open>
  The store: \<open>nodes\<close> at an address below \<open>nextId\<close> is an allocated node, \<open>nextId\<close> is the
  next fresh address, and \<open>activeElement\<close> is \<^verbatim>\<open>document.activeElement\<close>.
\<close>

record dom =
  nodes :: "nat \<Rightarrow> node"
  nextId :: nat
  activeElement :: "nat option"

subsection \<open>Type predicates (lines 366--408)\<close>

definition isElement :: "dom \<Rightarrow> nat \<Rightarrow> bool" where
  "isElement d n = (nodeType (nodes d n) = 1)"

definition isMedia :: "dom \<Rightarrow> nat \<Rightarrow> bool" where
  "isMedia d n = (localName (nodes d n) = ''video'' \<or> localName (nodes d n) = ''audio'')"

definition isInput :: "dom \<Rightarrow> nat \<Rightarrow> bool" where
  "isInput d n = (localName (nodes d n) = ''input'')"

definition isOption :: "dom \<Rightarrow> nat \<Rightarrow> bool" where
  "isOption d n = (localName (nodes d n) = ''option'')"

definition isTextArea :: "dom \<Rightarrow> nat \<Rightarrow> bool" where
  "isTextArea d n = (localName (nodes d n) = ''textarea'')"

definition isHead :: "dom \<Rightarrow> nat \<Rightarrow> bool" where
  "isHead d n = (localName (nodes d n) = ''head'')"

definition parentNodeTypes :: "nat set" where
  "parentNodeTypes = {1, 9, 11}"

definition isParentNode :: "dom \<Rightarrow> nat \<Rightarrow> bool" where
  "isParentNode d n = (nodeType (nodes d n) \<in> parentNodeTypes)"

subsection \<open>Navigation and attribute access of the host\<close>

definition parentElement :: "dom \<Rightarrow> nat \<Rightarrow> nat option" where
  "parentElement d n =
     (case parentNode (nodes d n) of
        None \<Rightarrow> None
      | Some p \<Rightarrow> if nodeType (nodes d p) = 1 then Some p else None)"

definition getAttribute :: "dom \<Rightarrow> nat \<Rightarrow> string \<Rightarrow> string option" where
  "getAttribute d n a = map_of (attributes (nodes d n)) a"

definition hasAttribute :: "dom \<Rightarrow> nat \<Rightarrow> string \<Rightarrow> bool" where
  "hasAttribute d n a = (getAttribute d n a \<noteq> None)"

text \<open>The \<^verbatim>\<open>id\<close> property reflects the \<^verbatim>\<open>id\<close> attribute, the empty string when absent.\<close>

definition elementId :: "dom \<Rightarrow> nat \<Rightarrow> string" where
  "elementId d n = (case getAttribute d n ''id'' of None \<Rightarrow> [] | Some v \<Rightarrow> v)"

text \<open>
  The descendants of a node in document order.  The host's tree is finite and acyclic, so
  a tree inside a store of \<open>nextId\<close> nodes is less than \<open>nextId\<close> deep, and the host's
  traversals are bounded by that depth.
\<close>

fun descendantsUpTo :: "nat \<Rightarrow> dom \<Rightarrow> nat \<Rightarrow> nat list" where
  "descendantsUpTo 0 d n = []"
| "descendantsUpTo (Suc k) d n =
     concat (map (\<lambda>c. c # descendantsUpTo k d c) (childNodes (nodes d n)))"

definition descendants :: "dom \<Rightarrow> nat \<Rightarrow> nat list" where
  "descendants d n = descendantsUpTo (nextId d) d n"

text \<open>
  \<^verbatim>\<open>querySelectorAll\<close>: the descendant elements that match, in document order.  The source
  uses two selectors, a list of tag names and \<^verbatim>\<open>[id]\<close>.
\<close>

datatype selector = TagNames "string list" | HasAttr string

fun matches :: "dom \<Rightarrow> selector \<Rightarrow> nat \<Rightarrow> bool" where
  "matches d (TagNames ts) e = (localName (nodes d e) \<in> set ts)"
| "matches d (HasAttr a) e = hasAttribute d e a"

definition querySelectorAll :: "dom \<Rightarrow> nat \<Rightarrow> selector \<Rightarrow> nat list" where
  "querySelectorAll d n s = filter (\<lambda>e. isElement d e \<and> matches d s e) (descendants d n)"

section \<open>Results of the engine's loops\<close>

text \<open>
  A loop of the source whose end depends on the tree or on the hooks runs on fuel:
  \<open>OutOfFuel\<close> is not a behaviour of the program, it says that the run did not end within
  the fuel given.  The other failures are exceptions: \<open>NotFoundError\<close> is the host's
  exception of \<^verbatim>\<open>insertBefore\<close> with a reference child that is not a child of the parent,
  \<open>NoNodesError\<close> is the error that \<^verbatim>\<open>morph\<close> throws at line 57.
\<close>

datatype failure = OutOfFuel | NotFoundError | NoNodesError

section \<open>The sensitivity pre-pass (lines 99--125)\<close>

type_synonym SensivityMap = "nat \<Rightarrow> nat option"

text \<open>\<^verbatim>\<open>map.get(n) ?? 0\<close>, the score of a node, 0 without an entry.\<close>

definition get0 :: "SensivityMap \<Rightarrow> nat \<Rightarrow> nat" where
  "get0 m n = (case m n of None \<Rightarrow> 0 | Some v \<Rightarrow> v)"

definition sensitiveSelector :: selector where
  "sensitiveSelector =
     TagNames [''audio'', ''canvas'', ''embed'', ''iframe'', ''input'', ''object'',
               ''textarea'', ''video'']"

text \<open>Lines 102--116: the score of one sensitive element.\<close>

definition sensivityOf :: "dom \<Rightarrow> nat \<Rightarrow> nat" where
  "sensivityOf d e =
     (if isInput d e \<or> isTextArea d e then
        1 + (if curValue (nodes d e) \<noteq> defaultValue (nodes d e) then 1 else 0)
          + (if Some e = activeElement d then 1 else 0)
      else
        3 + (if isMedia d e \<and> \<not> ended (nodes d e) then
               (if \<not> paused (nodes d e) then 1 else 0)
               + (if currentTime (nodes d e) > 0 then 1 else 0)
             else 0))"

text \<open>Lines 118--123: the walk from the sensitive element towards the root.\<close>

fun addSensivity :: "nat \<Rightarrow> dom \<Rightarrow> nat \<Rightarrow> nat \<Rightarrow> nat \<Rightarrow> SensivityMap
    \<Rightarrow> failure + SensivityMap" where
  "addSensivity 0 d rt s cur m = Inl OutOfFuel"
| "addSensivity (Suc k) d rt s cur m =
     (let m' = m(cur \<mapsto> (case m cur of None \<Rightarrow> 0 | Some v \<Rightarrow> v) + s) in
      if cur = rt then Inr m'
      else case parentElement d cur of
             None \<Rightarrow> Inr m'
           | Some p \<Rightarrow> addSensivity k d rt s p m')"

text \<open>Line 101: the loop over the sensitive elements.\<close>

fun mapSensivityLoop :: "nat \<Rightarrow> dom \<Rightarrow> nat \<Rightarrow> nat list \<Rightarrow> SensivityMap
    \<Rightarrow> failure + SensivityMap" where
  "mapSensivityLoop k d rt [] m = Inr m"
| "mapSensivityLoop k d rt (e # es) m =
     (case addSensivity k d rt (sensivityOf d e) e m of
        Inl f \<Rightarrow> Inl f
      | Inr m' \<Rightarrow> mapSensivityLoop k d rt es m')"

definition mapSensivity :: "nat \<Rightarrow> dom \<Rightarrow> nat \<Rightarrow> SensivityMap \<Rightarrow> failure + SensivityMap" where
  "mapSensivity k d rt m =
     mapSensivityLoop k d rt (querySelectorAll d rt sensitiveSelector) m"

section \<open>The id-set pre-pass (lines 128--146)\<close>

type_synonym IdSet = "string set"
type_synonym IdMap = "nat \<Rightarrow> IdSet option"

text \<open>Lines 139--144: the walk from the element with an id towards the root.\<close>

fun addId :: "nat \<Rightarrow> dom \<Rightarrow> nat \<Rightarrow> string \<Rightarrow> nat \<Rightarrow> IdMap \<Rightarrow> failure + IdMap" where
  "addId 0 d rt i cur m = Inl OutOfFuel"
| "addId (Suc k) d rt i cur m =
     (let m' = (case m cur of None \<Rightarrow> m(cur \<mapsto> {i}) | Some idSet \<Rightarrow> m(cur \<mapsto> insert i idSet)) in
      if cur = rt then Inr m'
      else case parentElement d cur of
             None \<Rightarrow> Inr m'
           | Some p \<Rightarrow> addId k d rt i p m')"

text \<open>Lines 131--145: the loop over the elements with an id attribute.\<close>

fun mapIdSetsLoop :: "nat \<Rightarrow> dom \<Rightarrow> nat \<Rightarrow> nat list \<Rightarrow> IdMap \<Rightarrow> failure + IdMap" where
  "mapIdSetsLoop k d rt [] m = Inr m"
| "mapIdSetsLoop k d rt (e # es) m =
     (if elementId d e = [] then mapIdSetsLoop k d rt es m
      else case addId k d rt (elementId d e) e m of
             Inl f \<Rightarrow> Inl f
           | Inr m' \<Rightarrow> mapIdSetsLoop k d rt es m')"

definition mapIdSets :: "nat \<Rightarrow> dom \<Rightarrow> nat \<Rightarrow> IdMap \<Rightarrow> failure + IdMap" where
  "mapIdSets k d rt m = mapIdSetsLoop k d rt (querySelectorAll d rt (HasAttr ''id'')) m"


section \<open>Mutations of the host tree\<close>

definition updNode :: "dom \<Rightarrow> nat \<Rightarrow> (node \<Rightarrow> node) \<Rightarrow> dom" where
  "updNode d n f = d \<lparr> nodes := (nodes d)(n := f (nodes d n)) \<rparr>"

text \<open>Siblings are read off the parent's list of children.\<close>

definition nextSibling :: "dom \<Rightarrow> nat \<Rightarrow> nat option" where
  "nextSibling d n =
     (case parentNode (nodes d n) of
        None \<Rightarrow> None
      | Some p \<Rightarrow>
          (case dropWhile (\<lambda>x. x \<noteq> n) (childNodes (nodes d p)) of
             _ # s # _ \<Rightarrow> Some s
           | _ \<Rightarrow> None))"

definition previousSibling :: "dom \<Rightarrow> nat \<Rightarrow> nat option" where
  "previousSibling d n =
     (case parentNode (nodes d n) of
        None \<Rightarrow> None
      | Some p \<Rightarrow>
          (let earlier = takeWhile (\<lambda>x. x \<noteq> n) (childNodes (nodes d p)) in
           if n \<in> set (childNodes (nodes d p)) \<and> earlier \<noteq> [] then Some (last earlier)
           else None))"

definition lastChild :: "dom \<Rightarrow> nat \<Rightarrow> nat option" where
  "lastChild d n = (case childNodes (nodes d n) of [] \<Rightarrow> None | cs \<Rightarrow> Some (last cs))"

text \<open>\<^verbatim>\<open>children\<close>: the child nodes that are elements.\<close>

definition children :: "dom \<Rightarrow> nat \<Rightarrow> nat list" where
  "children d n = filter (isElement d) (childNodes (nodes d n))"

definition firstElementChild :: "dom \<Rightarrow> nat \<Rightarrow> nat option" where
  "firstElementChild d n = (case children d n of [] \<Rightarrow> None | c # _ \<Rightarrow> Some c)"

text \<open>Taking a node out of its parent's list of children; nothing happens without a parent.\<close>

definition detach :: "dom \<Rightarrow> nat \<Rightarrow> dom" where
  "detach d n =
     (case parentNode (nodes d n) of
        None \<Rightarrow> d
      | Some p \<Rightarrow>
          updNode (updNode d p (\<lambda>x. x \<lparr> childNodes := removeAll n (childNodes x) \<rparr>))
            n (\<lambda>x. x \<lparr> parentNode := None \<rparr>))"

definition insertInto :: "nat \<Rightarrow> nat option \<Rightarrow> nat list \<Rightarrow> nat list" where
  "insertInto x r xs =
     (case r of
        None \<Rightarrow> xs @ [x]
      | Some y \<Rightarrow> takeWhile (\<lambda>z. z \<noteq> y) xs @ x # dropWhile (\<lambda>z. z \<noteq> y) xs)"

text \<open>
  \<^verbatim>\<open>parent.insertBefore(n, r)\<close> of the host: \<^verbatim>\<open>NotFoundError\<close> when \<open>r\<close> is not a child of
  \<open>parent\<close>; when \<open>r\<close> is \<open>n\<close> itself the reference becomes the next sibling of \<open>n\<close>; then \<open>n\<close>
  leaves its old parent and enters the list of \<open>parent\<close> before the reference, at the end
  when the reference is null.  (The host also refuses to insert an ancestor of \<open>parent\<close>;
  the source inserts siblings and fresh clones only.)
\<close>

definition hostInsertBefore :: "dom \<Rightarrow> nat \<Rightarrow> nat \<Rightarrow> nat option \<Rightarrow> failure + dom" where
  "hostInsertBefore d parent n r =
     (if (case r of None \<Rightarrow> False | Some y \<Rightarrow> y \<notin> set (childNodes (nodes d parent)))
      then Inl NotFoundError
      else
        let r' = (if r = Some n then nextSibling d n else r);
            d1 = detach d n;
            d2 = updNode d1 parent (\<lambda>x. x \<lparr> childNodes := insertInto n r' (childNodes x) \<rparr>)
        in Inr (updNode d2 n (\<lambda>x. x \<lparr> parentNode := Some parent \<rparr>)))"

definition hostAppendChild :: "dom \<Rightarrow> nat \<Rightarrow> nat \<Rightarrow> dom" where
  "hostAppendChild d parent n =
     (let d1 = detach d n;
          d2 = updNode d1 parent (\<lambda>x. x \<lparr> childNodes := childNodes x @ [n] \<rparr>)
      in updNode d2 n (\<lambda>x. x \<lparr> parentNode := Some parent \<rparr>))"

definition hostRemove :: "dom \<Rightarrow> nat \<Rightarrow> dom" where
  "hostRemove d n = detach d n"

text \<open>\<^verbatim>\<open>n.replaceWith(new)\<close>: nothing happens when \<open>n\<close> has no parent.\<close>

definition hostReplaceWith :: "dom \<Rightarrow> nat \<Rightarrow> nat \<Rightarrow> dom" where
  "hostReplaceWith d n new =
     (case parentNode (nodes d n) of
        None \<Rightarrow> d
      | Some p \<Rightarrow>
          let d1 = detach d new;
              d2 = updNode d1 p
                     (\<lambda>x. x \<lparr> childNodes := map (\<lambda>c. if c = n then new else c) (childNodes x) \<rparr>);
              d3 = updNode d2 n (\<lambda>x. x \<lparr> parentNode := None \<rparr>)
          in updNode d3 new (\<lambda>x. x \<lparr> parentNode := Some p \<rparr>))"

text \<open>Attributes: setting keeps the position of an attribute that exists, else appends.\<close>

fun setAttr :: "string \<Rightarrow> string \<Rightarrow> (string \<times> string) list \<Rightarrow> (string \<times> string) list" where
  "setAttr a v [] = [(a, v)]"
| "setAttr a v ((b, w) # xs) = (if a = b then (a, v) # xs else (b, w) # setAttr a v xs)"

definition setAttribute :: "dom \<Rightarrow> nat \<Rightarrow> string \<Rightarrow> string \<Rightarrow> dom" where
  "setAttribute d n a v = updNode d n (\<lambda>x. x \<lparr> attributes := setAttr a v (attributes x) \<rparr>)"

definition removeAttribute :: "dom \<Rightarrow> nat \<Rightarrow> string \<Rightarrow> dom" where
  "removeAttribute d n a =
     updNode d n (\<lambda>x. x \<lparr> attributes := filter (\<lambda>(b, _). b \<noteq> a) (attributes x) \<rparr>)"

text \<open>
  \<^verbatim>\<open>cloneNode(true)\<close>: a copy of the subtree at fresh addresses, without a parent.  The
  playback state and the indeterminate flag are not copied.
\<close>

fun cloneUpTo :: "nat \<Rightarrow> dom \<Rightarrow> nat \<Rightarrow> nat option \<Rightarrow> dom \<times> nat"
  and cloneAll :: "nat \<Rightarrow> dom \<Rightarrow> nat list \<Rightarrow> nat \<Rightarrow> dom" where
  "cloneUpTo k d n par =
     (let c = nextId d;
          copy = (nodes d n) \<lparr> childNodes := [], parentNode := par, indeterminate := False,
                   ended := False, paused := True, currentTime := 0 \<rparr>;
          d1 = d \<lparr> nodes := (nodes d)(c := copy), nextId := Suc c \<rparr>
      in (case k of 0 \<Rightarrow> (d1, c) | Suc k' \<Rightarrow> (cloneAll k' d1 (childNodes (nodes d n)) c, c)))"
| "cloneAll k d [] c = d"
| "cloneAll k d (x # xs) c =
     (let (d1, y) = cloneUpTo k d x (Some c);
          d2 = updNode d1 c (\<lambda>z. z \<lparr> childNodes := childNodes z @ [y] \<rparr>)
      in cloneAll k d2 xs c)"

definition cloneNode :: "dom \<Rightarrow> nat \<Rightarrow> dom \<times> nat" where
  "cloneNode d n = cloneUpTo (nextId d) d n None"

text \<open>\<^verbatim>\<open>textContent\<close> of an element: the text of its descendants, comments left out.\<close>

fun textUpTo :: "nat \<Rightarrow> dom \<Rightarrow> nat \<Rightarrow> string" where
  "textUpTo 0 d n = []"
| "textUpTo (Suc k) d n =
     concat (map (\<lambda>c. if nodeType (nodes d c) = 1 then textUpTo k d c
                       else if nodeType (nodes d c) = 3 \<or> nodeType (nodes d c) = 4
                         then (case nodeValue (nodes d c) of None \<Rightarrow> [] | Some s \<Rightarrow> s)
                       else [])
       (childNodes (nodes d n)))"

definition textContent :: "dom \<Rightarrow> nat \<Rightarrow> string" where
  "textContent d n = textUpTo (nextId d) d n"

text \<open>
  Assigning \<^verbatim>\<open>textContent\<close> of an element: the children leave, and a new text node with
  the string enters when the string is not empty.
\<close>

definition setTextContent :: "dom \<Rightarrow> nat \<Rightarrow> string \<Rightarrow> dom" where
  "setTextContent d n s =
     (let d1 = fold (\<lambda>c d'. updNode d' c (\<lambda>x. x \<lparr> parentNode := None \<rparr>))
                 (childNodes (nodes d n)) d;
          d2 = updNode d1 n (\<lambda>x. x \<lparr> childNodes := [] \<rparr>)
      in if s = [] then d2
         else let t = nextId d2;
                  txt = (nodes d2 t) \<lparr> nodeType := 3, localName := [], attributes := [],
                          childNodes := [], parentNode := Some n, nodeValue := Some s \<rparr>
              in updNode (d2 \<lparr> nodes := (nodes d2)(t := txt), nextId := Suc t \<rparr>) n
                   (\<lambda>x. x \<lparr> childNodes := [t] \<rparr>))"

text \<open>
  \<^verbatim>\<open>outerHTML\<close>: the serialisation of a subtree, a start tag with the attributes, the
  children and an end tag, a text node by its text, a comment between its marks.  Escaping
  and void elements are not modelled.
\<close>

fun serializeUpTo :: "nat \<Rightarrow> dom \<Rightarrow> nat \<Rightarrow> string" where
  "serializeUpTo 0 d n = []"
| "serializeUpTo (Suc k) d n =
     (if nodeType (nodes d n) = 1 then
        ''<'' @ localName (nodes d n)
        @ concat (map (\<lambda>(a, v). '' '' @ a @ ''=\"'' @ v @ ''\"'') (attributes (nodes d n)))
        @ ''>'' @ concat (map (serializeUpTo k d) (childNodes (nodes d n)))
        @ ''</'' @ localName (nodes d n) @ ''>''
      else if nodeType (nodes d n) = 8 then
        ''<!--'' @ (case nodeValue (nodes d n) of None \<Rightarrow> [] | Some s \<Rightarrow> s) @ ''-->''
      else (case nodeValue (nodes d n) of None \<Rightarrow> [] | Some s \<Rightarrow> s))"

definition outerHTML :: "dom \<Rightarrow> nat \<Rightarrow> string" where
  "outerHTML d n = serializeUpTo (Suc (nextId d)) d n"

section \<open>Properties\<close>

datatype propName = Checked | Disabled | Indeterminate | Value | Selected | TextContent | NodeValue

datatype pval = PBool bool | PStr string | PNull

definition getProp :: "dom \<Rightarrow> nat \<Rightarrow> propName \<Rightarrow> pval" where
  "getProp d n p =
     (case p of
        Checked \<Rightarrow> PBool (checked (nodes d n))
      | Disabled \<Rightarrow> PBool (disabled (nodes d n))
      | Indeterminate \<Rightarrow> PBool (indeterminate (nodes d n))
      | Value \<Rightarrow> PStr (curValue (nodes d n))
      | Selected \<Rightarrow> PBool (selected (nodes d n))
      | TextContent \<Rightarrow> PStr (textContent d n)
      | NodeValue \<Rightarrow> (case nodeValue (nodes d n) of None \<Rightarrow> PNull | Some s \<Rightarrow> PStr s))"

text \<open>
  An assignment stores a value of the property's type; \<^verbatim>\<open>nodeValue\<close> is assigned on
  character data only (on other nodes the host ignores it).
\<close>

definition setProp :: "dom \<Rightarrow> nat \<Rightarrow> propName \<Rightarrow> pval \<Rightarrow> dom" where
  "setProp d n p v =
     (case (p, v) of
        (Checked, PBool b) \<Rightarrow> updNode d n (\<lambda>x. x \<lparr> checked := b \<rparr>)
      | (Disabled, PBool b) \<Rightarrow> updNode d n (\<lambda>x. x \<lparr> disabled := b \<rparr>)
      | (Indeterminate, PBool b) \<Rightarrow> updNode d n (\<lambda>x. x \<lparr> indeterminate := b \<rparr>)
      | (Value, PStr s) \<Rightarrow> updNode d n (\<lambda>x. x \<lparr> curValue := s \<rparr>)
      | (Selected, PBool b) \<Rightarrow> updNode d n (\<lambda>x. x \<lparr> selected := b \<rparr>)
      | (TextContent, PStr s) \<Rightarrow> setTextContent d n s
      | (NodeValue, PStr s) \<Rightarrow>
          (if nodeValue (nodes d n) = None then d
           else updNode d n (\<lambda>x. x \<lparr> nodeValue := Some s \<rparr>))
      | _ \<Rightarrow> d)"

section \<open>Options, hooks and the trace\<close>

text \<open>
  What an observer of a run sees, in order: the calls of the hooks with their arguments,
  and the mutating calls that the engine makes on the host tree.
\<close>

datatype event =
    BeforeNodeMorphed nat nat
  | AfterNodeMorphed nat nat
  | BeforeNodeAdded nat
  | AfterNodeAdded nat
  | BeforeNodeRemoved nat
  | AfterNodeRemoved nat
  | BeforeAttributeUpdated nat string "string option"
  | AfterAttributeUpdated nat string "string option"
  | BeforePropertyUpdated nat propName pval
  | AfterPropertyUpdated nat propName pval
  | HostInsertBefore nat nat "nat option"
  | HostAppendChild nat nat
  | HostRemove nat
  | HostReplaceWith nat nat
  | HostSetAttribute nat string string
  | HostRemoveAttribute nat string
  | HostAssign nat propName pval

text \<open>
  The options of lines 31--49.  A ``before'' hook is a decision that may depend on the
  tree and on its arguments; an ``after'' hook returns nothing, so the record says only
  whether the caller passed one.  Hooks are taken not to mutate the tree themselves.
\<close>

record Options =
  ignoreActiveValue :: bool
  preserveModifiedValues :: bool
  beforeNodeMorphed :: "(dom \<Rightarrow> nat \<Rightarrow> nat \<Rightarrow> bool) option"
  afterNodeMorphed :: bool
  beforeNodeAdded :: "(dom \<Rightarrow> nat \<Rightarrow> bool) option"
  afterNodeAdded :: bool
  beforeNodeRemoved :: "(dom \<Rightarrow> nat \<Rightarrow> bool) option"
  afterNodeRemoved :: bool
  beforeAttributeUpdated :: "(dom \<Rightarrow> nat \<Rightarrow> string \<Rightarrow> string option \<Rightarrow> bool) option"
  afterAttributeUpdated :: bool
  beforePropertyUpdated :: "(dom \<Rightarrow> nat \<Rightarrow> propName \<Rightarrow> pval \<Rightarrow> bool) option"
  afterPropertyUpdated :: bool


text \<open>The instance of class \<^verbatim>\<open>Morph\<close> (lines 70--82).\<close>

record Morph =
  options :: Options
  idMap :: IdMap
  sensivityMap :: SensivityMap

text \<open>
  The state of a run: the tree, the trace, and the callbacks that wait for the next
  animation frame (line 94), each with the instance, the node and the reference that it
  has captured.
\<close>

record world =
  doc :: dom
  trace :: "event list"
  frames :: "(Morph \<times> nat \<times> nat) list"

definition emit :: "event \<Rightarrow> world \<Rightarrow> world" where
  "emit e w = w \<lparr> trace := trace w @ [e] \<rparr>"

text \<open>\<^verbatim>\<open>hook?.(args) ?? true\<close>: without a hook the answer is yes and nothing is called.\<close>

definition askBefore :: "(dom \<Rightarrow> bool) option \<Rightarrow> event \<Rightarrow> world \<Rightarrow> bool \<times> world" where
  "askBefore h e w = (case h of None \<Rightarrow> (True, w) | Some f \<Rightarrow> (f (doc w), emit e w))"

text \<open>\<^verbatim>\<open>hook?.(args)\<close> of an ``after'' hook.\<close>

definition tellAfter :: "bool \<Rightarrow> event \<Rightarrow> world \<Rightarrow> world" where
  "tellAfter h e w = (if h then emit e w else w)"


definition andThen :: "failure + 'a \<Rightarrow> ('a \<Rightarrow> failure + 'b) \<Rightarrow> failure + 'b" where
  "andThen r f = (case r of Inl e \<Rightarrow> Inl e | Inr x \<Rightarrow> f x)"

section \<open>The mutation primitives of the engine (lines 304--359)\<close>

text \<open>Lines 304--310.\<close>

definition updateProperty :: "Morph \<Rightarrow> world \<Rightarrow> nat \<Rightarrow> propName \<Rightarrow> pval \<Rightarrow> world" where
  "updateProperty M w n p newValue =
     (let previousValue = getProp (doc w) n p in
      if previousValue = newValue then w
      else
        let (ok, w1) = askBefore
               (map_option (\<lambda>h d. h d n p newValue) (beforePropertyUpdated (options M)))
               (BeforePropertyUpdated n p newValue) w
        in if ok then
             tellAfter (afterPropertyUpdated (options M)) (AfterPropertyUpdated n p previousValue)
               (emit (HostAssign n p newValue) (w1 \<lparr> doc := setProp (doc w1) n p newValue \<rparr>))
           else w1)"

text \<open>Lines 312--318; the second hook is asked only when the first one agrees.\<close>

definition replaceNode :: "Morph \<Rightarrow> world \<Rightarrow> nat \<Rightarrow> nat \<Rightarrow> world" where
  "replaceNode M w n newNode =
     (let (ok1, w1) = askBefore (map_option (\<lambda>h d. h d n) (beforeNodeRemoved (options M)))
                        (BeforeNodeRemoved n) w
      in if ok1 then
           let (ok2, w2) = askBefore
                  (map_option (\<lambda>h d. h d newNode) (beforeNodeAdded (options M)))
                  (BeforeNodeAdded newNode) w1
           in if ok2 then
                tellAfter (afterNodeRemoved (options M)) (AfterNodeRemoved n)
                  (tellAfter (afterNodeAdded (options M)) (AfterNodeAdded newNode)
                     (emit (HostReplaceWith n newNode)
                        (w2 \<lparr> doc := hostReplaceWith (doc w2) n newNode \<rparr>)))
              else w2
         else w1)"

text \<open>Lines 347--352.\<close>

definition appendChild :: "Morph \<Rightarrow> world \<Rightarrow> nat \<Rightarrow> nat \<Rightarrow> world" where
  "appendChild M w n newNode =
     (let (ok, w1) = askBefore (map_option (\<lambda>h d. h d newNode) (beforeNodeAdded (options M)))
                       (BeforeNodeAdded newNode) w
      in if ok then
           tellAfter (afterNodeAdded (options M)) (AfterNodeAdded newNode)
             (emit (HostAppendChild n newNode)
                (w1 \<lparr> doc := hostAppendChild (doc w1) n newNode \<rparr>))
         else w1)"

text \<open>Lines 354--359.\<close>

definition removeNode :: "Morph \<Rightarrow> world \<Rightarrow> nat \<Rightarrow> world" where
  "removeNode M w n =
     (let (ok, w1) = askBefore (map_option (\<lambda>h d. h d n) (beforeNodeRemoved (options M)))
                       (BeforeNodeRemoved n) w
      in if ok then
           tellAfter (afterNodeRemoved (options M)) (AfterNodeRemoved n)
             (emit (HostRemove n) (w1 \<lparr> doc := hostRemove (doc w1) n \<rparr>))
         else w1)"

subsection \<open>Sensitivity-aware insertion (lines 320--345)\<close>

text \<open>
  Lines 329--340, the backward scan.  The result says whether the method has returned at
  line 335 (\<open>True\<close>) or goes on to the insertion of line 344 (\<open>False\<close>).
\<close>

fun insertBeforeLoop :: "nat \<Rightarrow> Morph \<Rightarrow> world \<Rightarrow> nat \<Rightarrow> nat \<Rightarrow> nat \<Rightarrow> nat \<Rightarrow> nat option
    \<Rightarrow> failure + (bool \<times> world)" where
  "insertBeforeLoop 0 M w parent n insertionPoint sensitivity prev = Inl OutOfFuel"
| "insertBeforeLoop (Suc k) M w parent n insertionPoint sensitivity prev =
     (case prev of
        None \<Rightarrow> Inr (False, w)
      | Some previousNode \<Rightarrow>
          if get0 (sensivityMap M) previousNode < sensitivity then
            andThen (hostInsertBefore (doc w) parent previousNode (nextSibling (doc w) n))
              (\<lambda>d'. let w' = emit (HostInsertBefore parent previousNode (nextSibling (doc w) n))
                                (w \<lparr> doc := d' \<rparr>)
                     in if previousNode = insertionPoint then Inr (True, w')
                        else insertBeforeLoop k M w' parent n insertionPoint sensitivity
                               (previousSibling (doc w') n))
          else Inr (False, w))"

definition insertBefore :: "nat \<Rightarrow> Morph \<Rightarrow> world \<Rightarrow> nat \<Rightarrow> nat \<Rightarrow> nat \<Rightarrow> failure + world" where
  "insertBefore k M w parent n insertionPoint =
     (if n = insertionPoint then Inr w
      else
        andThen
          (if isElement (doc w) n \<and> 0 < get0 (sensivityMap M) n
           then insertBeforeLoop k M w parent n insertionPoint (get0 (sensivityMap M) n)
                  (previousSibling (doc w) n)
           else Inr (False, w))
          (\<lambda>(returned, w1).
             if returned then Inr w1
             else andThen (hostInsertBefore (doc w1) parent n (Some insertionPoint))
                    (\<lambda>d'. Inr (emit (HostInsertBefore parent n (Some insertionPoint))
                                  (w1 \<lparr> doc := d' \<rparr>)))))"

section \<open>Attributes and stateful properties (lines 185--222)\<close>

lemma doc_emit [simp]: "doc (emit e w) = doc w"
  by (simp add: emit_def)

lemma doc_tellAfter [simp]: "doc (tellAfter h e w) = doc w"
  by (simp add: tellAfter_def)

lemma doc_askBefore [simp]: "doc (snd (askBefore h e w)) = doc w"
  by (simp add: askBefore_def split: option.splits)

lemma nodes_updNode [simp]: "nodes (updNode d n f) x = (if x = n then f (nodes d n) else nodes d x)"
  by (simp add: updNode_def)

lemma nextId_updNode [simp]: "nextId (updNode d n f) = nextId d"
  by (simp add: updNode_def)

lemma activeElement_updNode [simp]: "activeElement (updNode d n f) = activeElement d"
  by (simp add: updNode_def)

text \<open>
  Lines 187--192, one round of the loop.  The loop runs over the live list of attributes
  of the element by position.
\<close>

definition removeExcessStep :: "Morph \<Rightarrow> world \<Rightarrow> nat \<Rightarrow> nat \<Rightarrow> nat \<Rightarrow> world" where
  "removeExcessStep M w element ref i =
     (let (name, val) = attributes (nodes (doc w) element) ! i in
      if \<not> hasAttribute (doc w) ref name then
        let (ok, w1) = askBefore
               (map_option (\<lambda>h d. h d element name None) (beforeAttributeUpdated (options M)))
               (BeforeAttributeUpdated element name None) w
        in if ok then
             tellAfter (afterAttributeUpdated (options M))
               (AfterAttributeUpdated element name (Some val))
               (emit (HostRemoveAttribute element name)
                  (w1 \<lparr> doc := removeAttribute (doc w1) element name \<rparr>))
           else w1
      else w)"

lemma removeExcessStep_length:
  "length (attributes (nodes (doc (removeExcessStep M w element ref i)) element))
     \<le> length (attributes (nodes (doc w) element))"
  by (auto simp: removeExcessStep_def removeAttribute_def Let_def askBefore_def
      split: prod.splits option.splits)

function removeExcessAttributes :: "Morph \<Rightarrow> world \<Rightarrow> nat \<Rightarrow> nat \<Rightarrow> nat \<Rightarrow> world" where
  "removeExcessAttributes M w element ref i =
     (if i < length (attributes (nodes (doc w) element))
      then removeExcessAttributes M (removeExcessStep M w element ref i) element ref (Suc i)
      else w)"
  by pat_completeness auto
termination
proof (relation "measure (\<lambda>(M, w, element, ref, i). length (attributes (nodes (doc w) element)) - i)")
  show "wf (measure (\<lambda>(M, w, element, ref, i). length (attributes (nodes (doc w) element)) - i))"
    by simp
next
  fix M :: Morph and w :: world and element ref i :: nat
  assume "i < length (attributes (nodes (doc w) element))"
  with removeExcessStep_length[of M w element ref i]
  show "((M, removeExcessStep M w element ref i, element, ref, Suc i), (M, w, element, ref, i))
          \<in> measure (\<lambda>(M, w, element, ref, i). length (attributes (nodes (doc w) element)) - i)"
    by simp
qed

text \<open>Lines 195--201, one round of the loop over the attributes of the reference.\<close>

definition copyAttributeStep :: "Morph \<Rightarrow> world \<Rightarrow> nat \<Rightarrow> nat \<Rightarrow> nat \<Rightarrow> world" where
  "copyAttributeStep M w element ref i =
     (let (name, val) = attributes (nodes (doc w) ref) ! i;
          previousValue = getAttribute (doc w) element name
      in if previousValue \<noteq> Some val then
           let (ok, w1) = askBefore
                  (map_option (\<lambda>h d. h d element name (Some val))
                     (beforeAttributeUpdated (options M)))
                  (BeforeAttributeUpdated element name (Some val)) w
           in if ok then
                tellAfter (afterAttributeUpdated (options M))
                  (AfterAttributeUpdated element name previousValue)
                  (emit (HostSetAttribute element name val)
                     (w1 \<lparr> doc := setAttribute (doc w1) element name val \<rparr>))
              else w1
         else w)"

lemma length_setAttr: "(a, b) \<in> set xs \<Longrightarrow> length (setAttr a v xs) = length xs"
  by (induction xs) auto

lemma copyAttributeStep_length:
  "i < length (attributes (nodes (doc w) ref)) \<Longrightarrow>
   length (attributes (nodes (doc (copyAttributeStep M w element ref i)) ref))
     = length (attributes (nodes (doc w) ref))"
proof -
  assume i: "i < length (attributes (nodes (doc w) ref))"
  obtain name val where nv: "attributes (nodes (doc w) ref) ! i = (name, val)"
    by (cases "attributes (nodes (doc w) ref) ! i")
  with i have "(name, val) \<in> set (attributes (nodes (doc w) ref))"
    by (metis nth_mem)
  then have "length (setAttr name v (attributes (nodes (doc w) ref)))
      = length (attributes (nodes (doc w) ref))" for v
    by (rule length_setAttr)
  then show ?thesis
    using nv
    by (auto simp: copyAttributeStep_def setAttribute_def Let_def askBefore_def
        split: prod.splits option.splits)
qed

function copyAttributes :: "Morph \<Rightarrow> world \<Rightarrow> nat \<Rightarrow> nat \<Rightarrow> nat \<Rightarrow> world" where
  "copyAttributes M w element ref i =
     (if i < length (attributes (nodes (doc w) ref))
      then copyAttributes M (copyAttributeStep M w element ref i) element ref (Suc i)
      else w)"
  by pat_completeness auto
termination
proof (relation "measure (\<lambda>(M, w, element, ref, i). length (attributes (nodes (doc w) ref)) - i)")
  show "wf (measure (\<lambda>(M, w, element, ref, i). length (attributes (nodes (doc w) ref)) - i))"
    by simp
next
  fix M :: Morph and w :: world and element ref i :: nat
  assume "i < length (attributes (nodes (doc w) ref))"
  with copyAttributeStep_length[of i w ref M element]
  show "((M, copyAttributeStep M w element ref i, element, ref, Suc i), (M, w, element, ref, i))
          \<in> measure (\<lambda>(M, w, element, ref, i). length (attributes (nodes (doc w) ref)) - i)"
    by simp
qed

text \<open>Lines 205--221, the properties that attributes do not carry.\<close>

definition syncInput :: "Morph \<Rightarrow> world \<Rightarrow> nat \<Rightarrow> nat \<Rightarrow> world" where
  "syncInput M w element ref =
     (let w1 = updateProperty M w element Checked (PBool (checked (nodes (doc w) ref)));
          w2 = updateProperty M w1 element Disabled (PBool (disabled (nodes (doc w1) ref)));
          w3 = updateProperty M w2 element Indeterminate
                 (PBool (indeterminate (nodes (doc w2) ref)))
      in if inputType (nodes (doc w3) element) \<noteq> ''file''
            \<and> \<not> (ignoreActiveValue (options M) \<and> activeElement (doc w3) = Some element)
            \<and> \<not> (preserveModifiedValues (options M)
                 \<and> inputName (nodes (doc w3) element) = inputName (nodes (doc w3) ref)
                 \<and> curValue (nodes (doc w3) element) \<noteq> defaultValue (nodes (doc w3) element))
         then updateProperty M w3 element Value (PStr (curValue (nodes (doc w3) ref)))
         else w3)"

definition syncTextArea :: "Morph \<Rightarrow> world \<Rightarrow> nat \<Rightarrow> nat \<Rightarrow> world" where
  "syncTextArea M w element ref =
     (let w1 = updateProperty M w element Value (PStr (curValue (nodes (doc w) ref)))
      in case firstElementChild (doc w1) element of
           None \<Rightarrow> w1
         | Some text \<Rightarrow>
             updateProperty M w1 text TextContent (PStr (curValue (nodes (doc w1) ref))))"

definition morphAttributes :: "Morph \<Rightarrow> world \<Rightarrow> nat \<Rightarrow> nat \<Rightarrow> world" where
  "morphAttributes M w element ref =
     (let w1 = removeExcessAttributes M w element ref 0;
          w2 = copyAttributes M w1 element ref 0
      in if isInput (doc w2) element \<and> isInput (doc w2) ref then syncInput M w2 element ref
         else if isOption (doc w2) element \<and> isOption (doc w2) ref then
           updateProperty M w2 element Selected (PBool (selected (nodes (doc w2) ref)))
         else if isTextArea (doc w2) element \<and> isTextArea (doc w2) ref then
           syncTextArea M w2 element ref
         else w2)"

section \<open>The head (lines 166--183)\<close>

text \<open>
  The \<^verbatim>\<open>Map\<close> of line 167 keeps its keys in the order of their first insertion; setting a
  key that exists replaces its value in place.
\<close>

fun mapSet :: "string \<Rightarrow> nat \<Rightarrow> (string \<times> nat) list \<Rightarrow> (string \<times> nat) list" where
  "mapSet k v [] = [(k, v)]"
| "mapSet k v ((k', v') # m) = (if k = k' then (k, v) # m else (k', v') # mapSet k v m)"

definition mapDelete :: "string \<Rightarrow> (string \<times> nat) list \<Rightarrow> (string \<times> nat) list" where
  "mapDelete k m = filter (\<lambda>(k', _). k' \<noteq> k) m"

text \<open>
  Lines 173--178, one round of the loop.  The loop runs over the live collection
  \<^verbatim>\<open>node.children\<close> by position.
\<close>

definition morphHeadStep :: "Morph \<Rightarrow> world \<times> (string \<times> nat) list \<Rightarrow> nat \<Rightarrow> nat
    \<Rightarrow> world \<times> (string \<times> nat) list" where
  "morphHeadStep M s n i =
     (let child = children (doc (fst s)) n ! i;
          key = outerHTML (doc (fst s)) child
      in case map_of (snd s) key of
           Some refChild \<Rightarrow> (fst s, mapDelete key (snd s))
         | None \<Rightarrow> (removeNode M (fst s) child, snd s))"

lemma isElement_detach [simp]: "isElement (detach d c) = isElement d"
  by (rule ext) (simp add: detach_def isElement_def split: option.splits)

lemma length_filter_removeAll: "length (filter P (removeAll c xs)) \<le> length (filter P xs)"
  by (induction xs) auto

lemma childNodes_detach:
  "childNodes (nodes (detach d c) n)
     = (if parentNode (nodes d c) = Some n then removeAll c (childNodes (nodes d n))
        else childNodes (nodes d n))"
  by (simp add: detach_def split: option.splits)

lemma children_detach_length: "length (children (detach d c) n) \<le> length (children d n)"
  by (simp add: children_def childNodes_detach length_filter_removeAll)

lemma morphHeadStep_length:
  "length (children (doc (fst (morphHeadStep M s n i))) n) \<le> length (children (doc (fst s)) n)"
  by (auto simp: morphHeadStep_def removeNode_def hostRemove_def Let_def askBefore_def
      children_detach_length split: option.splits prod.splits)

function morphHeadLoop :: "Morph \<Rightarrow> world \<times> (string \<times> nat) list \<Rightarrow> nat \<Rightarrow> nat
    \<Rightarrow> world \<times> (string \<times> nat) list" where
  "morphHeadLoop M s n i =
     (if i < length (children (doc (fst s)) n)
      then morphHeadLoop M (morphHeadStep M s n i) n (Suc i)
      else s)"
  by pat_completeness auto
termination
proof (relation "measure (\<lambda>(M, s, n, i). length (children (doc (fst s)) n) - i)")
  show "wf (measure (\<lambda>(M, s, n, i). length (children (doc (fst s)) n) - i))"
    by simp
next
  fix M :: Morph and s :: "world \<times> (string \<times> nat) list" and n i :: nat
  assume "i < length (children (doc (fst s)) n)"
  with morphHeadStep_length[of M s n i]
  show "((M, morphHeadStep M s n i, n, Suc i), (M, s, n, i))
          \<in> measure (\<lambda>(M, s, n, i). length (children (doc (fst s)) n) - i)"
    by simp
qed

definition morphHead :: "Morph \<Rightarrow> world \<Rightarrow> nat \<Rightarrow> nat \<Rightarrow> world" where
  "morphHead M w n reference =
     (let refChildNodesMap =
            fold (\<lambda>child m. mapSet (outerHTML (doc w) child) child m)
              (children (doc w) reference) [];
          s = morphHeadLoop M (w, refChildNodesMap) n 0
      in fold (\<lambda>refChild w'. let (d', c) = cloneNode (doc w') refChild
                               in appendChild M (w' \<lparr> doc := d' \<rparr>) n c)
           (map snd (snd s)) (fst s))"

section \<open>The walk over the two trees (lines 149--164 and 225--302)\<close>

definition hasAttributes :: "dom \<Rightarrow> nat \<Rightarrow> bool" where
  "hasAttributes d n = (attributes (nodes d n) \<noteq> [])"

definition hasChildNodes :: "dom \<Rightarrow> nat \<Rightarrow> bool" where
  "hasChildNodes d n = (childNodes (nodes d n) \<noteq> [])"

text \<open>
  Lines 264--288, the search among the child and its following siblings.  The loop reads
  the tree only; it ends with the node that matches by id or by id set, or, when the
  siblings are exhausted, with the first sibling of the reference's tag name, if any.
\<close>

datatype found = Matched nat | Exhausted "nat option"

fun findMatch :: "nat \<Rightarrow> Morph \<Rightarrow> dom \<Rightarrow> nat \<Rightarrow> nat option \<Rightarrow> nat option \<Rightarrow> failure + found" where
  "findMatch 0 M d ref cur nextMatchByTagName = Inl OutOfFuel"
| "findMatch (Suc k) M d ref cur nextMatchByTagName =
     (case cur of
        None \<Rightarrow> Inr (Exhausted nextMatchByTagName)
      | Some currentNode \<Rightarrow>
          if isElement d currentNode then
            let tagMatch =
                  (if nextMatchByTagName = None
                      \<and> localName (nodes d currentNode) = localName (nodes d ref)
                   then Some currentNode else nextMatchByTagName)
            in if elementId d currentNode \<noteq> []
                  \<and> (elementId d currentNode = elementId d ref
                     \<or> (case idMap M currentNode of
                           None \<Rightarrow> False
                         | Some currentIdSet \<Rightarrow>
                             (\<exists>it \<in> (case idMap M ref of None \<Rightarrow> {} | Some s \<Rightarrow> s).
                                it \<in> currentIdSet)))
               then Inr (Matched currentNode)
               else findMatch k M d ref (nextSibling d currentNode) tagMatch
          else findMatch k M d ref (nextSibling d currentNode) nextMatchByTagName)"

text \<open>
  Lines 245--249, the clean-up after the index pass.
\<close>

fun removeExcessChildren :: "nat \<Rightarrow> Morph \<Rightarrow> world \<Rightarrow> nat \<Rightarrow> nat \<Rightarrow> failure + world" where
  "removeExcessChildren 0 M w element ref = Inl OutOfFuel"
| "removeExcessChildren (Suc k) M w element ref =
     (if length (childNodes (nodes (doc w) element)) > length (childNodes (nodes (doc w) ref))
      then (case lastChild (doc w) element of
              None \<Rightarrow> removeExcessChildren k M w element ref
            | Some child \<Rightarrow> removeExcessChildren k M (removeNode M w child) element ref)
      else Inr w)"

text \<open>
  The four methods of lines 149--164 and 225--302 call one another.  Each is written here
  with the methods it calls as parameters, and \<open>morphAll\<close> ties them together on fuel:
  a call costs one unit, and a run that has none left ends with \<open>OutOfFuel\<close>.
\<close>

text \<open>Lines 149--164.\<close>

definition morphNodeWith ::
  "(world \<Rightarrow> nat \<Rightarrow> nat \<Rightarrow> failure + world) \<Rightarrow> Morph \<Rightarrow> world \<Rightarrow> nat \<Rightarrow> nat \<Rightarrow> failure + world" where
  "morphNodeWith morphChildNodes' M w n ref =
     (let (ok, w1) = askBefore (map_option (\<lambda>h d. h d n ref) (beforeNodeMorphed (options M)))
                       (BeforeNodeMorphed n ref) w
      in if \<not> ok then Inr w1
         else
           andThen
             (if isElement (doc w1) n \<and> isElement (doc w1) ref
                 \<and> localName (nodes (doc w1) n) = localName (nodes (doc w1) ref)
              then
                let w2 = (if hasAttributes (doc w1) n \<or> hasAttributes (doc w1) ref
                          then morphAttributes M w1 n ref else w1)
                in if isHead (doc w2) n then Inr (morphHead M w2 n ref)
                   else if hasChildNodes (doc w2) n \<or> hasChildNodes (doc w2) ref
                     then morphChildNodes' w2 n ref
                   else Inr w2
              else if nodeType (nodes (doc w1) n) = nodeType (nodes (doc w1) ref)
                      \<and> nodeValue (nodes (doc w1) n) \<noteq> None
                      \<and> nodeValue (nodes (doc w1) ref) \<noteq> None
                then Inr (updateProperty M w1 n NodeValue
                            (case nodeValue (nodes (doc w1) ref) of
                               None \<Rightarrow> PNull | Some s \<Rightarrow> PStr s))
              else
                let (d', c) = cloneNode (doc w1) ref
                in Inr (replaceNode M (w1 \<lparr> doc := d' \<rparr>) n c))
             (\<lambda>w3. Inr (tellAfter (afterNodeMorphed (options M)) (AfterNodeMorphed n ref) w3)))"

text \<open>
  Lines 229--243, one round of the loop at index \<open>i\<close>, below the number of children of the
  reference.  A reference child exists at every such index, so the branch of line 240 is
  never taken.
\<close>

definition morphChildNodesStep ::
  "(world \<Rightarrow> nat \<Rightarrow> nat \<Rightarrow> failure + world) \<Rightarrow> (world \<Rightarrow> nat \<Rightarrow> nat \<Rightarrow> nat \<Rightarrow> failure + world)
     \<Rightarrow> Morph \<Rightarrow> world \<Rightarrow> nat \<Rightarrow> nat \<Rightarrow> nat \<Rightarrow> failure + world" where
  "morphChildNodesStep morphNode' morphChildElement' M w element ref i =
     (let refChild = childNodes (nodes (doc w) ref) ! i in
      if i < length (childNodes (nodes (doc w) element)) then
        let child = childNodes (nodes (doc w) element) ! i in
        if isElement (doc w) child \<and> isElement (doc w) refChild
           \<and> localName (nodes (doc w) child) = localName (nodes (doc w) refChild)
        then
          if isHead (doc w) child then Inr (morphHead M w child refChild)
          else morphChildElement' w child refChild element
        else morphNode' w child refChild
      else
        let (d', c) = cloneNode (doc w) refChild
        in Inr (appendChild M (w \<lparr> doc := d' \<rparr>) element c))"

text \<open>Lines 252--302.\<close>

definition morphChildElementWith ::
  "(world \<Rightarrow> nat \<Rightarrow> nat \<Rightarrow> failure + world) \<Rightarrow> nat \<Rightarrow> Morph \<Rightarrow> world \<Rightarrow> nat \<Rightarrow> nat \<Rightarrow> nat
     \<Rightarrow> failure + world" where
  "morphChildElementWith morphNode' k M w child ref parent =
     (let (ok, w1) = askBefore
            (map_option (\<lambda>h d. h d child ref) (beforeNodeMorphed (options M)))
            (BeforeNodeMorphed child ref) w
      in if \<not> ok then Inr w1
         else
           andThen (findMatch k M (doc w1) ref (Some child) None)
             (\<lambda>r. case r of
                Matched currentNode \<Rightarrow>
                  andThen (insertBefore k M w1 parent currentNode child)
                    (\<lambda>w2. morphNode' w2 currentNode ref)
              | Exhausted (Some nextMatchByTagName) \<Rightarrow>
                  andThen (insertBefore k M w1 parent nextMatchByTagName child)
                    (\<lambda>w2. andThen (morphNode' w2 nextMatchByTagName ref)
                       (\<lambda>w3. Inr (tellAfter (afterNodeMorphed (options M))
                                     (AfterNodeMorphed child ref) w3)))
              | Exhausted None \<Rightarrow>
                  let (d', newNode) = cloneNode (doc w1) ref;
                      (ok2, w2) = askBefore
                         (map_option (\<lambda>h d. h d newNode) (beforeNodeAdded (options M)))
                         (BeforeNodeAdded newNode) (w1 \<lparr> doc := d' \<rparr>)
                  in andThen
                       (if ok2 then
                          andThen (insertBefore k M w2 parent newNode child)
                            (\<lambda>w3. Inr (tellAfter (afterNodeAdded (options M))
                                          (AfterNodeAdded newNode) w3))
                        else Inr w2)
                       (\<lambda>w4. Inr (tellAfter (afterNodeMorphed (options M))
                                     (AfterNodeMorphed child ref) w4))))"

datatype call =
    CallMorphNode nat nat
  | CallMorphChildNodes nat nat
  | CallMorphChildNodesLoop nat nat nat
  | CallMorphChildElement nat nat nat

primrec morphAll :: "nat \<Rightarrow> Morph \<Rightarrow> call \<Rightarrow> world \<Rightarrow> failure + world" where
  "morphAll 0 M c w = Inl OutOfFuel"
| "morphAll (Suc k) M c w =
     (case c of
        CallMorphNode n ref \<Rightarrow>
          morphNodeWith (\<lambda>w' e r. morphAll k M (CallMorphChildNodes e r) w') M w n ref
      | CallMorphChildNodes element ref \<Rightarrow>
          andThen (morphAll k M (CallMorphChildNodesLoop element ref 0) w)
            (\<lambda>w1. removeExcessChildren k M w1 element ref)
      | CallMorphChildNodesLoop element ref i \<Rightarrow>
          if i < length (childNodes (nodes (doc w) ref)) then
            andThen
              (morphChildNodesStep (\<lambda>w' n r. morphAll k M (CallMorphNode n r) w')
                 (\<lambda>w' c r p. morphAll k M (CallMorphChildElement c r p) w') M w element ref i)
              (\<lambda>w1. morphAll k M (CallMorphChildNodesLoop element ref (Suc i)) w1)
          else Inr w
      | CallMorphChildElement child ref parent \<Rightarrow>
          morphChildElementWith (\<lambda>w' n r. morphAll k M (CallMorphNode n r) w') k M w
            child ref parent)"

definition morphNode :: "nat \<Rightarrow> Morph \<Rightarrow> world \<Rightarrow> nat \<Rightarrow> nat \<Rightarrow> failure + world" where
  "morphNode k M w n ref = morphAll k M (CallMorphNode n ref) w"

definition morphChildNodes :: "nat \<Rightarrow> Morph \<Rightarrow> world \<Rightarrow> nat \<Rightarrow> nat \<Rightarrow> failure + world" where
  "morphChildNodes k M w element ref = morphAll k M (CallMorphChildNodes element ref) w"

definition morphChildNodesLoop :: "nat \<Rightarrow> Morph \<Rightarrow> world \<Rightarrow> nat \<Rightarrow> nat \<Rightarrow> nat \<Rightarrow> failure + world" where
  "morphChildNodesLoop k M w element ref i =
     morphAll k M (CallMorphChildNodesLoop element ref i) w"

definition morphChildElement :: "nat \<Rightarrow> Morph \<Rightarrow> world \<Rightarrow> nat \<Rightarrow> nat \<Rightarrow> nat \<Rightarrow> failure + world" where
  "morphChildElement k M w child ref parent =
     morphAll k M (CallMorphChildElement child ref parent) w"

section \<open>The entry point (lines 51--68 and 84--97)\<close>

definition newMorph :: "Options \<Rightarrow> Morph" where
  "newMorph opts = \<lparr> options = opts, idMap = Map.empty, sensivityMap = Map.empty \<rparr>"

text \<open>Lines 85--92, the pre-passes; they read the tree and fill the two maps.\<close>

definition prePasses :: "nat \<Rightarrow> Morph \<Rightarrow> dom \<Rightarrow> nat \<Rightarrow> nat \<Rightarrow> failure + Morph" where
  "prePasses k M d n reference =
     (if isParentNode d n \<and> isParentNode d reference then
        andThen (mapIdSets k d n (idMap M))
          (\<lambda>m1. andThen (mapIdSets k d reference m1)
             (\<lambda>m2. andThen (mapSensivity k d n (sensivityMap M))
                (\<lambda>s. Inr (M \<lparr> idMap := m2, sensivityMap := s \<rparr>))))
      else Inr M)"

text \<open>Lines 84--97: the mutation pass is not run, it is queued for the next frame.\<close>

definition Morph_morph :: "nat \<Rightarrow> Morph \<Rightarrow> world \<Rightarrow> nat \<Rightarrow> nat \<Rightarrow> failure + world" where
  "Morph_morph k M w n reference =
     andThen (prePasses k M (doc w) n reference)
       (\<lambda>M'. Inr (w \<lparr> frames := frames w @ [(M', n, reference)] \<rparr>))"

text \<open>
  A markup string is the list of its UTF-16 code units.  \<^verbatim>\<open>String.prototype.trim\<close> strips
  the white space and the line terminators of ECMAScript from both ends: tab, line feed,
  vertical tab, form feed, carriage return, space, U+00A0, U+1680, U+2000 to U+200A,
  U+2028, U+2029, U+202F, U+205F, U+3000 and U+FEFF.
\<close>

type_synonym markup = "nat list"

definition isSpace :: "nat \<Rightarrow> bool" where
  "isSpace c = (c \<in> {0x09, 0x0A, 0x0B, 0x0C, 0x0D, 0x20, 0xA0, 0x1680, 0x2028, 0x2029, 0x202F,
                      0x205F, 0x3000, 0xFEFF} \<or> (0x2000 \<le> c \<and> c \<le> 0x200A))"

definition trim :: "markup \<Rightarrow> markup" where
  "trim s = rev (dropWhile isSpace (rev (dropWhile isSpace s)))"

datatype reference = RefNode nat | RefMarkup markup

text \<open>
  Lines 51--68.  The parser of markup is a capability of the host and a parameter here:
  \<open>parse s d\<close> is the tree after \<^verbatim>\<open>template.innerHTML = s\<close> together with
  \<^verbatim>\<open>template.content.firstChild\<close>.  The result is the exception thrown, if any, and the
  state in which the call ends.
\<close>

definition morph :: "(markup \<Rightarrow> dom \<Rightarrow> dom \<times> nat option) \<Rightarrow> nat \<Rightarrow> world \<Rightarrow> nat \<Rightarrow> reference
    \<Rightarrow> Options \<Rightarrow> failure option \<times> world" where
  "morph parse k w n reference opts =
     (case (case reference of
              RefNode r \<Rightarrow> (Some r, w)
            | RefMarkup s \<Rightarrow> (let (d', r) = parse (trim s) (doc w) in (r, w \<lparr> doc := d' \<rparr>))) of
        (None, w0) \<Rightarrow> (Some NoNodesError, w0)
      | (Some r, w0) \<Rightarrow>
          if isElement (doc w0) n then
            let w1 = w0 \<lparr> doc := updNode (doc w0) n (\<lambda>x. x \<lparr> ariaBusy := Some ''true'' \<rparr>) \<rparr>
            in (case Morph_morph k (newMorph opts) w1 n r of
                  Inl e \<Rightarrow> (Some e, w1)
                | Inr w2 \<Rightarrow>
                    (None, w2 \<lparr> doc := updNode (doc w2) n (\<lambda>x. x \<lparr> ariaBusy := None \<rparr>) \<rparr>))
          else
            (case Morph_morph k (newMorph opts) w0 n r of
               Inl e \<Rightarrow> (Some e, w0)
             | Inr w2 \<Rightarrow> (None, w2)))"

text \<open>The next animation frame runs the queued callbacks in order.\<close>

fun runFrames :: "nat \<Rightarrow> (Morph \<times> nat \<times> nat) list \<Rightarrow> world \<Rightarrow> failure + world" where
  "runFrames k [] w = Inr w"
| "runFrames k ((M, n, reference) # fs) w =
     andThen (morphNode k M w n reference) (\<lambda>w'. runFrames k fs w')"

definition animationFrame :: "nat \<Rightarrow> world \<Rightarrow> failure + world" where
  "animationFrame k w = runFrames k (frames w) (w \<lparr> frames := [] \<rparr>)"


section \<open>Notions used to state the properties\<close>

text \<open>
  \<open>upTo d rt e a\<close>: the walk of lines 118--123 and 139--144 from \<open>e\<close> passes \<open>a\<close>; it goes
  through parent elements and ends at the subtree root \<open>rt\<close>.
\<close>

inductive upTo :: "dom \<Rightarrow> nat \<Rightarrow> nat \<Rightarrow> nat \<Rightarrow> bool" for d rt e where
  self: "upTo d rt e e"
| step: "upTo d rt e a \<Longrightarrow> a \<noteq> rt \<Longrightarrow> parentElement d a = Some p \<Longrightarrow> upTo d rt e p"

text \<open>The nodes that the walk from \<open>cur\<close> towards \<open>rt\<close> visits, when it ends within \<open>k\<close> steps.\<close>

fun pathUp :: "nat \<Rightarrow> dom \<Rightarrow> nat \<Rightarrow> nat \<Rightarrow> nat list option" where
  "pathUp 0 d rt cur = None"
| "pathUp (Suc k) d rt cur =
     (if cur = rt then Some [cur]
      else case parentElement d cur of
             None \<Rightarrow> Some [cur]
           | Some p \<Rightarrow> (case pathUp k d rt p of None \<Rightarrow> None | Some ps \<Rightarrow> Some (cur # ps)))"

definition bump :: "nat \<Rightarrow> nat \<Rightarrow> SensivityMap \<Rightarrow> SensivityMap" where
  "bump s a m = m(a \<mapsto> (case m a of None \<Rightarrow> 0 | Some v \<Rightarrow> v) + s)"

text \<open>
  \<open>ancestorUpTo d rt e a\<close>: \<open>a\<close> is \<open>e\<close> or an ancestor of \<open>e\<close>, not above the subtree root
  \<open>rt\<close>.
\<close>

inductive ancestorUpTo :: "dom \<Rightarrow> nat \<Rightarrow> nat \<Rightarrow> nat \<Rightarrow> bool" for d rt e where
  self: "ancestorUpTo d rt e e"
| step: "ancestorUpTo d rt e a \<Longrightarrow> a \<noteq> rt \<Longrightarrow> parentNode (nodes d a) = Some p
           \<Longrightarrow> ancestorUpTo d rt e p"

text \<open>
  The nodes from \<open>cur\<close> up to the subtree root \<open>rt\<close>, when \<open>rt\<close> is \<open>cur\<close> or an ancestor of
  \<open>cur\<close> at most \<open>k\<close> levels up and the ancestors up to it are elements.  That is so for
  every descendant of a root that is an element.
\<close>

fun climb :: "nat \<Rightarrow> dom \<Rightarrow> nat \<Rightarrow> nat \<Rightarrow> nat list option" where
  "climb 0 d rt cur = None"
| "climb (Suc k) d rt cur =
     (if cur = rt then Some [cur]
      else case parentNode (nodes d cur) of
             None \<Rightarrow> None
           | Some p \<Rightarrow>
               if nodeType (nodes d p) = 1
               then (case climb k d rt p of None \<Rightarrow> None | Some ps \<Rightarrow> Some (cur # ps))
               else None)"

text \<open>
  The sensitive kinds of section 4.1 of the specification, and the sensitive descendants
  of a subtree root in document order.
\<close>

definition sensitiveKinds :: "string list" where
  "sensitiveKinds = [''input'', ''textarea'', ''audio'', ''canvas'', ''embed'', ''iframe'',
                     ''object'', ''video'']"

definition sensitiveBelow :: "dom \<Rightarrow> nat \<Rightarrow> nat list" where
  "sensitiveBelow d rt =
     filter (\<lambda>e. isElement d e \<and> localName (nodes d e) \<in> set sensitiveKinds) (descendants d rt)"

text \<open>
  The score of an element in the words of section 4.1 of the specification: input and
  textarea, the other sensitive kinds with the media elements among them, and nothing
  for any other element.
\<close>

definition scoreBySpec :: "dom \<Rightarrow> nat \<Rightarrow> nat" where
  "scoreBySpec d e =
     (let nd = nodes d e in
      if localName nd \<in> {''input'', ''textarea''} then
        1 + of_bool (curValue nd \<noteq> defaultValue nd) + of_bool (activeElement d = Some e)
      else if localName nd \<in> {''audio'', ''canvas'', ''embed'', ''iframe'', ''object'', ''video''} then
        3 + (if localName nd \<in> {''audio'', ''video''} \<and> \<not> ended nd
             then of_bool (\<not> paused nd) + of_bool (0 < currentTime nd) else 0)
      else 0)"

section \<open>Example trees\<close>

definition blank :: node where
  "blank = \<lparr> nodeType = 1, localName = [], attributes = [], childNodes = [],
     parentNode = None, nodeValue = None, inputType = [], inputName = [], curValue = [],
     defaultValue = [], checked = False, disabled = False, indeterminate = False,
     selected = False, ended = False, paused = True, currentTime = 0, ariaBusy = None \<rparr>"

definition elementNode :: "string \<Rightarrow> (string \<times> string) list \<Rightarrow> nat option \<Rightarrow> nat list \<Rightarrow> node" where
  "elementNode tag attrs par kids =
     blank \<lparr> localName := tag, attributes := attrs, parentNode := par, childNodes := kids \<rparr>"

definition textNode :: "string \<Rightarrow> nat option \<Rightarrow> node" where
  "textNode s par = blank \<lparr> nodeType := 3, nodeValue := Some s, parentNode := par \<rparr>"

text \<open>
  A \<^verbatim>\<open>div\<close> at 10 that holds an input, focused and edited (11), a paragraph (12) with a
  video playing at second 5 (13), a textarea (14), an audio that has ended (15), a canvas
  (16), an embed (17), an iframe (18), an object (19) and a span (20).
\<close>

definition sensDom :: dom where
  "sensDom = \<lparr> nodes = (\<lambda>_. blank)
       (10 := elementNode ''div'' [] None [11, 12, 14, 15, 16, 17, 18, 19, 20],
        11 := (elementNode ''input'' [] (Some 10) []) \<lparr> curValue := ''x'' \<rparr>,
        12 := elementNode ''p'' [] (Some 10) [13],
        13 := (elementNode ''video'' [] (Some 12) []) \<lparr> paused := False, currentTime := 5 \<rparr>,
        14 := elementNode ''textarea'' [] (Some 10) [],
        15 := (elementNode ''audio'' [] (Some 10) [])
                \<lparr> ended := True, paused := False, currentTime := 9 \<rparr>,
        16 := elementNode ''canvas'' [] (Some 10) [],
        17 := elementNode ''embed'' [] (Some 10) [],
        18 := elementNode ''iframe'' [] (Some 10) [],
        19 := elementNode ''object'' [] (Some 10) [],
        20 := elementNode ''span'' [] (Some 10) []),
     nextId = 21, activeElement = Some 11 \<rparr>"

text \<open>The id set of a node, empty when the node has no entry.\<close>

definition getSet :: "IdMap \<Rightarrow> nat \<Rightarrow> IdSet" where
  "getSet m n = (case m n of None \<Rightarrow> {} | Some s \<Rightarrow> s)"

definition addTo :: "string \<Rightarrow> nat \<Rightarrow> IdMap \<Rightarrow> IdMap" where
  "addTo i a m = (case m a of None \<Rightarrow> m(a \<mapsto> {i}) | Some idSet \<Rightarrow> m(a \<mapsto> insert i idSet))"

text \<open>\<^verbatim>\<open><div id="r"><span id="a"></span></div>\<close>\<close>

definition idDom :: dom where
  "idDom = \<lparr> nodes = (\<lambda>_. blank)
       (10 := elementNode ''div'' [(''id'', ''r'')] None [11],
        11 := elementNode ''span'' [(''id'', ''a'')] (Some 10) []),
     nextId = 12, activeElement = None \<rparr>"

text \<open>
  The non-empty ids of the elements of \<open>es\<close> from which the walk of lines 139--144 passes
  \<open>n\<close>.
\<close>

definition idsOn :: "dom \<Rightarrow> nat \<Rightarrow> nat list \<Rightarrow> nat \<Rightarrow> IdSet" where
  "idsOn d rt es n = {elementId d e | e. e \<in> set es \<and> elementId d e \<noteq> [] \<and> upTo d rt e n}"

text \<open>
  The descendant elements of a subtree root that have a non-empty id, and the ids of
  those among them that are \<open>n\<close> or lie below \<open>n\<close>.
\<close>

definition identified :: "dom \<Rightarrow> nat \<Rightarrow> nat list" where
  "identified d rt = filter (\<lambda>e. isElement d e \<and> elementId d e \<noteq> []) (descendants d rt)"

definition idsBelow :: "dom \<Rightarrow> nat \<Rightarrow> nat \<Rightarrow> IdSet" where
  "idsBelow d rt n = {elementId d e | e. e \<in> set (identified d rt) \<and> ancestorUpTo d rt e n}"

section \<open>Example runs\<close>

text \<open>No hooks and no flags.\<close>

definition noHooks :: Options where
  "noHooks = \<lparr> ignoreActiveValue = False, preserveModifiedValues = False,
     beforeNodeMorphed = None, afterNodeMorphed = False, beforeNodeAdded = None,
     afterNodeAdded = False, beforeNodeRemoved = None, afterNodeRemoved = False,
     beforeAttributeUpdated = None, afterAttributeUpdated = False,
     beforePropertyUpdated = None, afterPropertyUpdated = False \<rparr>"

text \<open>Every hook is passed, and every ``before'' hook agrees.\<close>

definition allHooks :: Options where
  "allHooks = \<lparr> ignoreActiveValue = False, preserveModifiedValues = False,
     beforeNodeMorphed = Some (\<lambda>_ _ _. True), afterNodeMorphed = True,
     beforeNodeAdded = Some (\<lambda>_ _. True), afterNodeAdded = True,
     beforeNodeRemoved = Some (\<lambda>_ _. True), afterNodeRemoved = True,
     beforeAttributeUpdated = Some (\<lambda>_ _ _ _. True), afterAttributeUpdated = True,
     beforePropertyUpdated = Some (\<lambda>_ _ _ _. True), afterPropertyUpdated = True \<rparr>"

definition start :: "dom \<Rightarrow> world" where
  "start d = \<lparr> doc = d, trace = [], frames = [] \<rparr>"

text \<open>
  The list of section 8: \<^verbatim>\<open><ul><li id="a">X</li><li id="b">Y</li></ul>\<close> at 10 and the
  reference \<^verbatim>\<open><ul><li id="b">Y2</li><li id="a">X2</li></ul>\<close> at 20.
\<close>

definition listDom :: dom where
  "listDom = \<lparr> nodes = (\<lambda>_. blank)
      (10 := elementNode ''ul'' [] None [11, 13],
       11 := elementNode ''li'' [(''id'', ''a'')] (Some 10) [12],
       12 := textNode ''X'' (Some 11),
       13 := elementNode ''li'' [(''id'', ''b'')] (Some 10) [14],
       14 := textNode ''Y'' (Some 13),
       20 := elementNode ''ul'' [] None [21, 23],
       21 := elementNode ''li'' [(''id'', ''b'')] (Some 20) [22],
       22 := textNode ''Y2'' (Some 21),
       23 := elementNode ''li'' [(''id'', ''a'')] (Some 20) [24],
       24 := textNode ''X2'' (Some 23)),
     nextId = 30, activeElement = None \<rparr>"

text \<open>The instance after the pre-passes of \<^verbatim>\<open>morph\<close> on the two lists.\<close>

definition listMorph :: Morph where
  "listMorph = projr (prePasses 5 (newMorph allHooks) listDom 10 20)"

text \<open>
  \<^verbatim>\<open><textarea name="t">old</textarea>\<close> at 10, and the reference
  \<^verbatim>\<open><textarea name="t">draft</textarea>\<close> at 20 whose value has been edited to \<^verbatim>\<open>typed\<close>.
\<close>

definition areaDom :: dom where
  "areaDom = \<lparr> nodes = (\<lambda>_. blank)
      (10 := (elementNode ''textarea'' [(''name'', ''t'')] None [11])
               \<lparr> curValue := ''old'', defaultValue := ''old'' \<rparr>,
       11 := textNode ''old'' (Some 10),
       20 := (elementNode ''textarea'' [(''name'', ''t'')] None [21])
               \<lparr> curValue := ''typed'', defaultValue := ''draft'' \<rparr>,
       21 := textNode ''draft'' (Some 20)),
     nextId = 30, activeElement = None \<rparr>"

text \<open>
  The test ``removes excess elements'': \<^verbatim>\<open><h1><div></div></h1>\<close> at 10 and the reference
  \<^verbatim>\<open><h1></h1>\<close> at 20.
\<close>

definition excessDom :: dom where
  "excessDom = \<lparr> nodes = (\<lambda>_. blank)
      (10 := elementNode ''h1'' [] None [11],
       11 := elementNode ''div'' [] (Some 10) [],
       20 := elementNode ''h1'' [] None []),
     nextId = 30, activeElement = None \<rparr>"

text \<open>The only hook is \<^verbatim>\<open>beforeNodeRemoved: () => false\<close>.\<close>

definition keepNodes :: Options where
  "keepNodes = noHooks \<lparr> beforeNodeRemoved := Some (\<lambda>_ _. False) \<rparr>"

text \<open>
  Whether the before-property-updated hook lets the assignment of \<open>v\<close> to the property \<open>p\<close>
  of \<open>n\<close> pass in the tree \<open>d\<close>; without a hook every assignment passes.
\<close>

definition permits :: "Morph \<Rightarrow> dom \<Rightarrow> nat \<Rightarrow> propName \<Rightarrow> pval \<Rightarrow> bool" where
  "permits M d n p v = (case beforePropertyUpdated (options M) of None \<Rightarrow> True | Some h \<Rightarrow> h d n p v)"

text \<open>
  The three conditions of section 4.4 under which the value of an input is not synced.
\<close>

definition valueBlocked :: "Morph \<Rightarrow> dom \<Rightarrow> nat \<Rightarrow> nat \<Rightarrow> bool" where
  "valueBlocked M d element ref =
     (inputType (nodes d element) = ''file''
      \<or> (ignoreActiveValue (options M) \<and> activeElement d = Some element)
      \<or> (preserveModifiedValues (options M)
          \<and> inputName (nodes d element) = inputName (nodes d ref)
          \<and> curValue (nodes d element) \<noteq> defaultValue (nodes d element)))"

text \<open>A parser that finds no node in the empty string.\<close>

definition emptyParser :: "markup \<Rightarrow> dom \<Rightarrow> dom \<times> nat option" where
  "emptyParser s d = (d, if s = [] then None else Some 0)"

text \<open>
  \<^verbatim>\<open><input name="q">\<close> at 10, focused, with the value \<^verbatim>\<open>mine\<close>, and the reference
  \<^verbatim>\<open><input name="q">\<close> at 20, checked, with the value \<^verbatim>\<open>theirs\<close>.
\<close>

definition inputDom :: dom where
  "inputDom = \<lparr> nodes = (\<lambda>_. blank)
      (10 := (elementNode ''input'' [(''name'', ''q'')] None [])
               \<lparr> inputType := ''text'', inputName := ''q'', curValue := ''mine'' \<rparr>,
       20 := (elementNode ''input'' [(''name'', ''q'')] None [])
               \<lparr> inputType := ''text'', inputName := ''q'', curValue := ''theirs'', checked := True \<rparr>),
     nextId = 30, activeElement = Some 10 \<rparr>"

text \<open>The only hook is \<^verbatim>\<open>beforePropertyUpdated: () => false\<close>.\<close>

definition keepProperties :: Options where
  "keepProperties = noHooks \<lparr> beforePropertyUpdated := Some (\<lambda>_ _ _ _. False) \<rparr>"

text \<open>
  Section 4.9 in its own words.  \<open>scanRun \<sigma> s ip xs\<close> is the run of preceding siblings that
  get out of the way of a node of sensitivity \<open>s\<close>: \<open>xs\<close> are the preceding siblings, the
  nearest first; the run goes on while a sibling is strictly less sensitive, and ends
  with the insertion point when it reaches it.
\<close>

fun scanRun :: "(nat \<Rightarrow> nat) \<Rightarrow> nat \<Rightarrow> nat \<Rightarrow> nat list \<Rightarrow> nat list" where
  "scanRun \<sigma> s ip [] = []"
| "scanRun \<sigma> s ip (x # xs) =
     (if \<sigma> x < s then (if x = ip then [x] else x # scanRun \<sigma> s ip xs) else [])"

text \<open>
  The host calls that move the siblings of a run, one after the other, each to the place
  just after the node: before what follows the node at that moment.
\<close>

definition headOf :: "nat list \<Rightarrow> nat option" where
  "headOf xs = (case xs of [] \<Rightarrow> None | y # _ \<Rightarrow> Some y)"

definition relocations :: "nat \<Rightarrow> nat list \<Rightarrow> nat list \<Rightarrow> event list" where
  "relocations p run after =
     map (\<lambda>(x, r). HostInsertBefore p x r) (zip run (headOf after # map Some run))"

text \<open>
  The children of \<open>p\<close> form a proper list of siblings: no node twice, not \<open>p\<close> itself, and
  each child names \<open>p\<close> as its parent.
\<close>

definition siblingsOk :: "dom \<Rightarrow> nat \<Rightarrow> bool" where
  "siblingsOk d p =
     (distinct (childNodes (nodes d p)) \<and> p \<notin> set (childNodes (nodes d p))
      \<and> (\<forall>x \<in> set (childNodes (nodes d p)). parentNode (nodes d x) = Some p))"

text \<open>
  \<^verbatim>\<open><div><p></p><video></video><span></span><input></div>\<close>, the input focused.
\<close>

definition moveDom :: dom where
  "moveDom = \<lparr> nodes = (\<lambda>_. blank)
      (10 := elementNode ''div'' [] None [11, 12, 13, 14],
       11 := elementNode ''p'' [] (Some 10) [],
       12 := elementNode ''video'' [] (Some 10) [],
       13 := elementNode ''span'' [] (Some 10) [],
       14 := elementNode ''input'' [] (Some 10) []),
     nextId = 20, activeElement = Some 14 \<rparr>"

text \<open>An instance with the sensitivity map of that tree.\<close>

definition moveMorph :: Morph where
  "moveMorph = (newMorph noHooks) \<lparr> sensivityMap := projr (mapSensivity 5 moveDom 10 Map.empty) \<rparr>"

subsection \<open>The part of the store that a run may write\<close>

text \<open>
  A region \<open>A\<close> of the store is closed under children: a child of an allocated node of
  \<open>A\<close> lies in \<open>A\<close>, is allocated and names that node as its parent.  The parents of its
  nodes lie in \<open>W\<close>, which holds \<open>A\<close> and, for a live root with a parent, that parent.
  The addresses that are not yet allocated belong to \<open>A\<close>: clones are made there.
\<close>

definition region :: "nat set \<Rightarrow> nat set \<Rightarrow> dom \<Rightarrow> bool" where
  "region A W d =
     (A \<subseteq> W
      \<and> (\<forall>a \<in> A. a < nextId d \<longrightarrow>
            (\<forall>c \<in> set (childNodes (nodes d a)).
               c \<in> A \<and> c < nextId d \<and> parentNode (nodes d c) = Some a)
            \<and> (\<forall>q. parentNode (nodes d a) = Some q \<longrightarrow> q \<in> W))
      \<and> (\<forall>a. nextId d \<le> a \<longrightarrow> a \<in> A))"

text \<open>Outside \<open>W\<close> every node record is what it was, and no address is given up.\<close>

definition keeps :: "nat set \<Rightarrow> dom \<Rightarrow> dom \<Rightarrow> bool" where
  "keeps W d d' = ((\<forall>a. a \<notin> W \<longrightarrow> nodes d' a = nodes d a) \<and> nextId d \<le> nextId d')"

definition safe :: "nat set \<Rightarrow> nat set \<Rightarrow> dom \<Rightarrow> dom \<Rightarrow> bool" where
  "safe A W d d' = (region A W d' \<and> keeps W d d')"

text \<open>A node of the region whose parent, if it has one, is an allocated node of the region.\<close>

definition inside :: "nat set \<Rightarrow> dom \<Rightarrow> nat \<Rightarrow> bool" where
  "inside A d m = (m \<in> A \<and> m < nextId d
      \<and> (\<forall>q. parentNode (nodes d m) = Some q \<longrightarrow> q \<in> A \<and> q < nextId d))"

text \<open>A node that is in no list of children of the region.\<close>

definition orphan :: "nat set \<Rightarrow> dom \<Rightarrow> nat \<Rightarrow> bool" where
  "orphan A d m = (\<forall>a \<in> A. a < nextId d \<longrightarrow> m \<notin> set (childNodes (nodes d a)))"

text \<open>What a clone made with the parent \<open>par\<close> leaves behind.\<close>

definition cloned :: "nat set \<Rightarrow> nat set \<Rightarrow> dom \<Rightarrow> nat option \<Rightarrow> dom \<times> nat \<Rightarrow> bool" where
  "cloned A W d par res =
     (region A W (fst res) \<and> keeps W d (fst res) \<and> snd res = nextId d
      \<and> nextId d < nextId (fst res) \<and> parentNode (nodes (fst res) (snd res)) = par
      \<and> (\<forall>a. a < nextId d \<longrightarrow> nodes (fst res) a = nodes d a))"

text \<open>The nodes that a call of the walk works on belong to the region.\<close>

fun callOk :: "nat set \<Rightarrow> dom \<Rightarrow> call \<Rightarrow> bool" where
  "callOk A d (CallMorphNode n ref) = (n \<in> A \<and> n < nextId d)"
| "callOk A d (CallMorphChildNodes element ref) = (element \<in> A \<and> element < nextId d)"
| "callOk A d (CallMorphChildNodesLoop element ref i) = (element \<in> A \<and> element < nextId d)"
| "callOk A d (CallMorphChildElement child ref parent) =
     (inside A d child \<and> parent \<in> A \<and> parent < nextId d)"

text \<open>The live list of \<open>listDom\<close> together with the addresses that are free.\<close>

definition liveList :: "nat set" where
  "liveList = {10, 11, 12, 13, 14} \<union> {a. 30 \<le> a}"

subsection \<open>Trees that are equal\<close>

text \<open>The calls of the before-morphed and after-morphed hooks.\<close>

definition morphedEvent :: "event \<Rightarrow> bool" where
  "morphedEvent e = (case e of BeforeNodeMorphed _ _ \<Rightarrow> True | AfterNodeMorphed _ _ \<Rightarrow> True
                     | _ \<Rightarrow> False)"

text \<open>
  A run from \<open>w\<close> to \<open>w'\<close> that leaves the tree and the queue alone and adds nothing to the
  trace but calls of those two hooks: no other hook is called and the host is asked for
  no mutation.
\<close>

definition quiet :: "world \<Rightarrow> world \<Rightarrow> bool" where
  "quiet w w' = (doc w' = doc w \<and> frames w' = frames w
      \<and> take (length (trace w)) (trace w') = trace w
      \<and> list_all morphedEvent (drop (length (trace w)) (trace w')))"











section \<open>The walk towards the root\<close>

lemma pathUp_Suc_cases:
  "pathUp (Suc k) d rt cur = Some ps \<longleftrightarrow>
     ((cur = rt \<or> parentElement d cur = None) \<and> ps = [cur]) \<or>
     (cur \<noteq> rt \<and> (\<exists>p ps'. parentElement d cur = Some p \<and> pathUp k d rt p = Some ps' \<and> ps = cur # ps'))"
  by (auto split: option.splits)

declare pathUp.simps(2) [simp del]

lemma pathUp_mono: "pathUp k d rt cur = Some ps \<Longrightarrow> pathUp (Suc k) d rt cur = Some ps"
proof (induction k arbitrary: cur ps)
  case 0
  then show ?case by simp
next
  case (Suc k)
  from Suc.prems consider "(cur = rt \<or> parentElement d cur = None) \<and> ps = [cur]"
    | p ps' where "cur \<noteq> rt" "parentElement d cur = Some p" "pathUp k d rt p = Some ps'"
        "ps = cur # ps'"
    by (auto simp: pathUp_Suc_cases)
  then show ?case
  proof cases
    case 1
    then show ?thesis by (simp add: pathUp_Suc_cases)
  next
    case 2
    from Suc.IH[OF 2(3)] 2 show ?thesis by (simp add: pathUp_Suc_cases[of "Suc k"])
  qed
qed

lemma pathUp_add: "pathUp k d rt cur = Some ps \<Longrightarrow> pathUp (k + j) d rt cur = Some ps"
  by (induction j) (auto dest: pathUp_mono)

lemma pathUp_le: "pathUp k d rt cur = Some ps \<Longrightarrow> k \<le> k' \<Longrightarrow> pathUp k' d rt cur = Some ps"
  using pathUp_add[of k d rt cur ps "k' - k"] by simp

lemma pathUp_unique:
  "pathUp k d rt cur = Some ps \<Longrightarrow> pathUp k' d rt cur = Some qs \<Longrightarrow> ps = qs"
  using pathUp_le[of k d rt cur ps "max k k'"] pathUp_le[of k' d rt cur qs "max k k'"] by simp

lemma pathUp_suffix:
  "pathUp k d rt cur = Some ps \<Longrightarrow> x \<in> set ps \<Longrightarrow>
     \<exists>qs pre. pathUp k d rt x = Some qs \<and> ps = pre @ qs \<and> (x = cur \<or> pre \<noteq> [])"
proof (induction k arbitrary: cur ps)
  case 0
  then show ?case by simp
next
  case (Suc k)
  show ?case
  proof (cases "x = cur")
    case True
    with Suc.prems show ?thesis by auto
  next
    case False
    with Suc.prems obtain p ps' where p: "parentElement d cur = Some p" "cur \<noteq> rt"
      "pathUp k d rt p = Some ps'" "ps = cur # ps'" "x \<in> set ps'"
      by (auto simp: pathUp_Suc_cases)
    from Suc.IH[OF p(3) p(5)] obtain qs pre where "pathUp k d rt x = Some qs" "ps' = pre @ qs"
      by blast
    with p(4) have "pathUp (Suc k) d rt x = Some qs" "ps = (cur # pre) @ qs"
      by (auto dest: pathUp_mono)
    then show ?thesis by blast
  qed
qed

lemma pathUp_distinct: "pathUp k d rt cur = Some ps \<Longrightarrow> distinct ps"
proof (induction k arbitrary: cur ps)
  case 0
  then show ?case by simp
next
  case (Suc k)
  from Suc.prems consider "ps = [cur]"
    | p ps' where "parentElement d cur = Some p" "cur \<noteq> rt" "pathUp k d rt p = Some ps'"
        "ps = cur # ps'"
    by (auto simp: pathUp_Suc_cases)
  then show ?case
  proof cases
    case 1
    then show ?thesis by simp
  next
    case 2
    have "cur \<notin> set ps'"
    proof
      assume "cur \<in> set ps'"
      from pathUp_suffix[OF 2(3) this] obtain qs pre where
        q: "pathUp k d rt cur = Some qs" "ps' = pre @ qs" by blast
      from pathUp_unique[OF q(1) Suc.prems] 2(4) q(2) show False by simp
    qed
    with Suc.IH[OF 2(3)] 2(4) show ?thesis by simp
  qed
qed

lemma pathUp_head: "pathUp k d rt e = Some ps \<Longrightarrow> e \<in> set ps"
  by (cases k) (auto simp: pathUp_Suc_cases)

lemma upTo_trans: "upTo d rt p n \<Longrightarrow> upTo d rt e p \<Longrightarrow> upTo d rt e n"
  by (induction rule: upTo.induct) (auto intro: upTo.step)

lemma pathUp_sound: "pathUp k d rt e = Some ps \<Longrightarrow> n \<in> set ps \<Longrightarrow> upTo d rt e n"
proof (induction k arbitrary: e ps)
  case 0
  then show ?case by simp
next
  case (Suc k)
  show ?case
  proof (cases "n = e")
    case True
    then show ?thesis by (simp add: upTo.self)
  next
    case False
    with Suc.prems obtain p ps' where p: "parentElement d e = Some p" "e \<noteq> rt"
      "pathUp k d rt p = Some ps'" "ps = e # ps'" "n \<in> set ps'"
      by (auto simp: pathUp_Suc_cases)
    have "upTo d rt p n" by (rule Suc.IH[OF p(3) p(5)])
    moreover have "upTo d rt e p" using upTo.step[OF upTo.self p(2) p(1)] .
    ultimately show ?thesis by (rule upTo_trans)
  qed
qed

lemma pathUp_complete:
  assumes ps: "pathUp k d rt e = Some ps" and up: "upTo d rt e n"
  shows "n \<in> set ps"
  using up
proof (induction rule: upTo.induct)
  case self
  from ps show ?case by (rule pathUp_head)
next
  case (step a p)
  from pathUp_suffix[OF ps step.IH] obtain qs pre where q: "pathUp k d rt a = Some qs"
    "ps = pre @ qs" by blast
  then obtain k' where k': "k = Suc k'" by (cases k) auto
  with q step.hyps obtain qs' where "pathUp k' d rt p = Some qs'" "qs = a # qs'"
    by (auto simp: pathUp_Suc_cases)
  with q(2) pathUp_head[of k' d rt p qs'] show ?case by simp
qed

lemma pathUp_upTo: "pathUp k d rt e = Some ps \<Longrightarrow> n \<in> set ps \<longleftrightarrow> upTo d rt e n"
  using pathUp_sound pathUp_complete by blast

lemma climb_pathUp: "climb k d rt e = Some ps \<Longrightarrow> pathUp k d rt e = Some ps"
proof (induction k arbitrary: e ps)
  case 0
  then show ?case by simp
next
  case (Suc k)
  show ?case
  proof (cases "e = rt")
    case True
    with Suc.prems show ?thesis by (simp add: pathUp_Suc_cases)
  next
    case False
    with Suc.prems obtain p ps' where p: "parentNode (nodes d e) = Some p" "nodeType (nodes d p) = 1"
      "climb k d rt p = Some ps'" "ps = e # ps'"
      by (auto split: option.splits if_splits)
    from p(1,2) have "parentElement d e = Some p" by (simp add: parentElement_def)
    with Suc.IH[OF p(3)] p(4) False show ?thesis by (simp add: pathUp_Suc_cases)
  qed
qed

lemma climb_parent:
  "climb k d rt e = Some ps \<Longrightarrow> a \<in> set ps \<Longrightarrow> a \<noteq> rt \<Longrightarrow>
     parentNode (nodes d a) = Some p \<Longrightarrow> parentElement d a = Some p"
proof (induction k arbitrary: e ps)
  case 0
  then show ?case by simp
next
  case (Suc k)
  show ?case
  proof (cases "e = rt")
    case True
    with Suc.prems show ?thesis by auto
  next
    case False
    with Suc.prems(1) obtain q ps' where q: "parentNode (nodes d e) = Some q" "nodeType (nodes d q) = 1"
      "climb k d rt q = Some ps'" "ps = e # ps'"
      by (auto split: option.splits if_splits)
    show ?thesis
    proof (cases "a = e")
      case True
      with q(1,2) Suc.prems(4) show ?thesis by (simp add: parentElement_def)
    next
      case False
      with Suc.prems(2) q(4) have "a \<in> set ps'" by simp
      from Suc.IH[OF q(3) this Suc.prems(3,4)] show ?thesis .
    qed
  qed
qed

lemma upTo_ancestorUpTo: "upTo d rt e n \<Longrightarrow> ancestorUpTo d rt e n"
proof (induction rule: upTo.induct)
  case self
  show ?case by (rule ancestorUpTo.self)
next
  case (step a p)
  from step.hyps(3) have "parentNode (nodes d a) = Some p"
    by (auto simp: parentElement_def split: option.splits if_splits)
  from ancestorUpTo.step[OF step.IH step.hyps(2) this] show ?case .
qed

lemma climb_ancestorUpTo:
  assumes c: "climb k d rt e = Some ps"
  shows "ancestorUpTo d rt e n \<longleftrightarrow> n \<in> set ps"
proof
  assume "ancestorUpTo d rt e n"
  then have "upTo d rt e n"
  proof (induction rule: ancestorUpTo.induct)
    case self
    show ?case by (rule upTo.self)
  next
    case (step a p)
    from pathUp_complete[OF climb_pathUp[OF c] step.IH] have "a \<in> set ps" .
    from climb_parent[OF c this step.hyps(2,3)] have "parentElement d a = Some p" .
    from upTo.step[OF step.IH step.hyps(2) this] show ?case .
  qed
  then show "n \<in> set ps" by (rule pathUp_complete[OF climb_pathUp[OF c]])
next
  assume "n \<in> set ps"
  from upTo_ancestorUpTo[OF pathUp_sound[OF climb_pathUp[OF c] this]] show "ancestorUpTo d rt e n" .
qed

lemma climb_upTo: "climb k d rt e = Some ps \<Longrightarrow> upTo d rt e n \<longleftrightarrow> ancestorUpTo d rt e n"
  using climb_ancestorUpTo[of k d rt e ps n] pathUp_upTo[OF climb_pathUp, of k d rt e ps n] by simp

section \<open>The sensitivity pre-pass accumulates scores\<close>

lemma sensitive_query: "querySelectorAll d rt sensitiveSelector = sensitiveBelow d rt"
  unfolding querySelectorAll_def sensitiveBelow_def sensitiveSelector_def sensitiveKinds_def
  by (rule filter_cong) auto

lemma sensitive_kind: "e \<in> set (sensitiveBelow d rt) \<Longrightarrow> localName (nodes d e) \<in> set sensitiveKinds"
  by (simp add: sensitiveBelow_def)

lemma sensivityOf_scoreBySpec:
  "localName (nodes d e) \<in> set sensitiveKinds \<Longrightarrow> sensivityOf d e = scoreBySpec d e"
  by (auto simp: sensivityOf_def scoreBySpec_def sensitiveKinds_def isInput_def isTextArea_def
      isMedia_def Let_def)

lemma addSensivity_pathUp:
  "addSensivity k d rt s cur m =
     (case pathUp k d rt cur of None \<Rightarrow> Inl OutOfFuel | Some ps \<Rightarrow> Inr (fold (bump s) ps m))"
proof (induction k arbitrary: cur m)
  case 0
  show ?case by simp
next
  case (Suc k)
  show ?case
    by (simp add: Suc.IH pathUp.simps(2) bump_def Let_def split: option.splits)
qed

lemma fold_bump_notin: "n \<notin> set ps \<Longrightarrow> fold (bump s) ps m n = m n"
  by (induction ps arbitrary: m) (auto simp: bump_def)

lemma fold_bump_in:
  "distinct ps \<Longrightarrow> n \<in> set ps \<Longrightarrow> fold (bump s) ps m n = Some (get0 m n + s)"
  by (induction ps arbitrary: m) (auto simp: bump_def get0_def fold_bump_notin)

lemma addSensivity_value:
  assumes "pathUp k d rt e = Some ps"
  shows "\<exists>m'. addSensivity k d rt s e m = Inr m' \<and>
           (\<forall>n. m' n = (if upTo d rt e n then Some (get0 m n + s) else m n))"
  using assms pathUp_upTo[OF assms] pathUp_distinct[OF assms]
  by (auto simp: addSensivity_pathUp fold_bump_in fold_bump_notin)

lemma mapSensivityLoop_value:
  assumes "\<forall>e \<in> set es. pathUp k d rt e \<noteq> None"
  shows "\<exists>m'. mapSensivityLoop k d rt es m = Inr m' \<and>
           (\<forall>n. m' n = (if filter (\<lambda>e. upTo d rt e n) es = [] then m n
                        else Some (get0 m n
                          + sum_list (map (sensivityOf d) (filter (\<lambda>e. upTo d rt e n) es)))))"
  using assms
proof (induction es arbitrary: m)
  case Nil
  then show ?case by simp
next
  case (Cons e es)
  then obtain ps where ps: "pathUp k d rt e = Some ps" by auto
  from addSensivity_value[OF ps, of "sensivityOf d e" m] obtain m1 where
    m1: "addSensivity k d rt (sensivityOf d e) e m = Inr m1"
        "\<And>n. m1 n = (if upTo d rt e n then Some (get0 m n + sensivityOf d e) else m n)"
    by blast
  from Cons.IH[of m1] Cons.prems obtain m2 where
    m2: "mapSensivityLoop k d rt es m1 = Inr m2"
        "\<And>n. m2 n = (if filter (\<lambda>e. upTo d rt e n) es = [] then m1 n
                        else Some (get0 m1 n
                          + sum_list (map (sensivityOf d) (filter (\<lambda>e. upTo d rt e n) es))))"
    by auto
  have "mapSensivityLoop k d rt (e # es) m = Inr m2" using m1(1) m2(1) by simp
  moreover have "m2 n = (if filter (\<lambda>e. upTo d rt e n) (e # es) = [] then m n
                        else Some (get0 m n
                          + sum_list (map (sensivityOf d) (filter (\<lambda>e. upTo d rt e n) (e # es)))))" for n
    by (simp add: m2(2) m1(2) get0_def)
  ultimately show ?case by blast
qed

text \<open>
  Claim C1.  The sensitive descendants of the subtree root are its descendant elements of
  the eight kinds input, textarea, audio, canvas, embed, iframe, object and video.  When
  the root lies at most \<open>k\<close> levels above each of them, with elements in between, the
  sensitivity pre-pass returns, and the entry of a node \<open>n\<close> afterwards is its entry
  before plus the scores of all sensitive descendants \<open>e\<close> of the root such that \<open>n\<close> is
  \<open>e\<close> or an ancestor of \<open>e\<close> up to the root, the root included; any other node keeps
  its entry.  The score of an element is the one of section 4.1: input and textarea
  count 1, one more when the value differs from the default value, one more when
  focused; each other sensitive kind counts 3, and a media element that has not ended
  one more when it is not paused and one more when its playback position is above 0.
\<close>

theorem mapSensivity_accumulates:
  assumes "\<forall>e \<in> set (sensitiveBelow d rt). climb k d rt e \<noteq> None"
  shows "\<exists>m'. mapSensivity k d rt m = Inr m' \<and>
           (\<forall>n. m' n =
              (let S = filter (\<lambda>e. ancestorUpTo d rt e n) (sensitiveBelow d rt)
               in if S = [] then m n
                  else Some (get0 m n + sum_list (map (scoreBySpec d) S))))"
proof -
  have paths: "\<forall>e \<in> set (sensitiveBelow d rt). pathUp k d rt e \<noteq> None"
    using assms climb_pathUp by fastforce
  have f: "filter (\<lambda>e. upTo d rt e n) (sensitiveBelow d rt)
         = filter (\<lambda>e. ancestorUpTo d rt e n) (sensitiveBelow d rt)" for n
    by (rule filter_cong) (use assms climb_upTo in auto)
  have s: "map (sensivityOf d) (filter (\<lambda>e. ancestorUpTo d rt e n) (sensitiveBelow d rt))
         = map (scoreBySpec d) (filter (\<lambda>e. ancestorUpTo d rt e n) (sensitiveBelow d rt))" for n
    by (rule map_cong) (auto simp: sensivityOf_scoreBySpec sensitive_kind)
  from mapSensivityLoop_value[OF paths, of m] show ?thesis
    unfolding mapSensivity_def sensitive_query Let_def f s .
qed

lemma sensDom_sensitive: "sensitiveBelow sensDom 10 = [11, 13, 14, 15, 16, 17, 18, 19]"
  by code_simp

lemma sensDom_climb:
  "climb 3 sensDom 10 11 = Some [11, 10]" "climb 3 sensDom 10 13 = Some [13, 12, 10]"
  "climb 3 sensDom 10 14 = Some [14, 10]" "climb 3 sensDom 10 15 = Some [15, 10]"
  "climb 3 sensDom 10 16 = Some [16, 10]" "climb 3 sensDom 10 17 = Some [17, 10]"
  "climb 3 sensDom 10 18 = Some [18, 10]" "climb 3 sensDom 10 19 = Some [19, 10]"
  by code_simp+

lemma sensDom_scores:
  "scoreBySpec sensDom 11 = 3" "scoreBySpec sensDom 13 = 5" "scoreBySpec sensDom 14 = 1"
  "scoreBySpec sensDom 15 = 3" "scoreBySpec sensDom 16 = 3" "scoreBySpec sensDom 17 = 3"
  "scoreBySpec sensDom 18 = 3" "scoreBySpec sensDom 19 = 3"
  by code_simp+

theorem mapSensivity_accumulates_witness:
  "sensitiveBelow sensDom 10 = [11, 13, 14, 15, 16, 17, 18, 19] \<and>
   climb 3 sensDom 10 11 = Some [11, 10] \<and> climb 3 sensDom 10 13 = Some [13, 12, 10] \<and>
   (\<exists>m'. mapSensivity 3 sensDom 10 [10 \<mapsto> 100] = Inr m' \<and>
      m' 10 = Some 124 \<and> m' 11 = Some 3 \<and> m' 12 = Some 5 \<and> m' 13 = Some 5 \<and> m' 14 = Some 1 \<and>
      m' 15 = Some 3 \<and> m' 19 = Some 3 \<and> m' 20 = None)"
proof -
  have hyp: "\<forall>e \<in> set (sensitiveBelow sensDom 10). climb 3 sensDom 10 e \<noteq> None"
    by (simp add: sensDom_sensitive sensDom_climb)
  note w = sensDom_climb[THEN climb_ancestorUpTo]
  from mapSensivity_accumulates[OF hyp, of "[10 \<mapsto> 100]"] show ?thesis
    by (auto simp: sensDom_sensitive sensDom_climb w sensDom_scores get0_def Let_def)
qed

section \<open>The id-set pre-pass collects the ids below a node\<close>

lemma addId_Suc:
  "addId (Suc k) d rt i cur m =
     (if cur = rt then Inr (addTo i cur m)
      else case parentElement d cur of
             None \<Rightarrow> Inr (addTo i cur m)
           | Some p \<Rightarrow> addId k d rt i p (addTo i cur m))"
  by (cases "cur = rt"; cases "parentElement d cur"; simp add: addTo_def Let_def)

lemma addId_pathUp:
  "addId k d rt i cur m =
     (case pathUp k d rt cur of None \<Rightarrow> Inl OutOfFuel | Some ps \<Rightarrow> Inr (fold (addTo i) ps m))"
proof (induction k arbitrary: cur m)
  case 0
  show ?case by simp
next
  case (Suc k)
  show ?case
    by (simp add: addId_Suc Suc.IH pathUp.simps(2) split: option.splits del: addId.simps)
qed

lemma fold_addTo:
  "fold (addTo i) ps m n = (if n \<in> set ps then Some (insert i (getSet m n)) else m n)"
  by (induction ps arbitrary: m) (auto simp: addTo_def getSet_def split: option.splits)

lemma addId_value:
  assumes "pathUp k d rt e = Some ps"
  shows "\<exists>m'. addId k d rt i e m = Inr m' \<and>
           (\<forall>n. m' n = (if upTo d rt e n then Some (insert i (getSet m n)) else m n))"
  using assms pathUp_upTo[OF assms]
  by (auto simp: addId_pathUp fold_addTo)

lemma idsOn_Nil: "idsOn d rt [] n = {}"
  by (simp add: idsOn_def)

lemma idsOn_Cons:
  "idsOn d rt (e # es) n =
     (if elementId d e \<noteq> [] \<and> upTo d rt e n then insert (elementId d e) (idsOn d rt es n)
      else idsOn d rt es n)"
  by (auto simp: idsOn_def)

lemma mapIdSetsLoop_value:
  assumes "\<forall>e \<in> set es. pathUp k d rt e \<noteq> None"
  shows "\<exists>m'. mapIdSetsLoop k d rt es m = Inr m' \<and>
           (\<forall>n. m' n = (if idsOn d rt es n = {} then m n
                        else Some (getSet m n \<union> idsOn d rt es n)))"
  using assms
proof (induction es arbitrary: m)
  case Nil
  then show ?case by (simp add: idsOn_Nil)
next
  case (Cons e es)
  show ?case
  proof (cases "elementId d e = []")
    case True
    from Cons.IH[of m] Cons.prems obtain m2 where
      "mapIdSetsLoop k d rt es m = Inr m2"
      "\<And>n. m2 n = (if idsOn d rt es n = {} then m n
                        else Some (getSet m n \<union> idsOn d rt es n))"
      by auto
    with True have "mapIdSetsLoop k d rt (e # es) m = Inr m2 \<and>
      (\<forall>n. m2 n = (if idsOn d rt (e # es) n = {} then m n
                        else Some (getSet m n \<union> idsOn d rt (e # es) n)))"
      by (simp add: idsOn_Cons)
    then show ?thesis by blast
  next
    case False
    from Cons.prems obtain ps where ps: "pathUp k d rt e = Some ps" by auto
    from addId_value[OF ps, of "elementId d e" m] obtain m1 where
      m1: "addId k d rt (elementId d e) e m = Inr m1"
          "\<And>n. m1 n = (if upTo d rt e n then Some (insert (elementId d e) (getSet m n)) else m n)"
      by blast
    from Cons.IH[of m1] Cons.prems obtain m2 where
      m2: "mapIdSetsLoop k d rt es m1 = Inr m2"
          "\<And>n. m2 n = (if idsOn d rt es n = {} then m1 n
                        else Some (getSet m1 n \<union> idsOn d rt es n))"
      by auto
    have "mapIdSetsLoop k d rt (e # es) m = Inr m2" using False m1(1) m2(1) by simp
    moreover have "m2 n = (if idsOn d rt (e # es) n = {} then m n
                        else Some (getSet m n \<union> idsOn d rt (e # es) n))" for n
      using False by (auto simp: m2(2) m1(2) getSet_def idsOn_Cons)
    ultimately show ?thesis by blast
  qed
qed

lemma mapIdSetsLoop_filter:
  "mapIdSetsLoop k d rt es m = mapIdSetsLoop k d rt (filter (\<lambda>e. elementId d e \<noteq> []) es) m"
  by (induction es arbitrary: m) (auto split: sum.splits)

lemma id_query:
  "filter (\<lambda>e. elementId d e \<noteq> []) (querySelectorAll d rt (HasAttr ''id'')) = identified d rt"
  unfolding querySelectorAll_def identified_def filter_filter
  by (rule filter_cong) (auto simp: elementId_def hasAttribute_def split: option.splits)

lemma identified_id: "e \<in> set (identified d rt) \<Longrightarrow> elementId d e \<noteq> []"
  by (simp add: identified_def)

text \<open>
  Claim C2, as the code has it.  The query of line 129 returns descendants of the subtree
  root only, so the root's own id is never inserted.  When the root lies at most \<open>k\<close>
  levels above each descendant element with a non-empty id, with elements in between,
  the id-set pre-pass returns on every map, the empty one of the pass over the live tree
  and the one that this pass has filled when line 87 runs the pass over the reference.
  Afterwards a node \<open>n\<close> that is, or has below it, a descendant of the root with a
  non-empty id is mapped to the set it had before, if any, together with the non-empty
  ids of all such descendants; every other node keeps its entry.
\<close>

theorem mapIdSets_union:
  assumes "\<forall>e \<in> set (identified d rt). climb k d rt e \<noteq> None"
  shows "\<exists>m'. mapIdSets k d rt m = Inr m' \<and>
           (\<forall>n. m' n = (if idsBelow d rt n = {} then m n
                        else Some (getSet m n \<union> idsBelow d rt n)))"
proof -
  have paths: "\<forall>e \<in> set (identified d rt). pathUp k d rt e \<noteq> None"
    using assms climb_pathUp by fastforce
  have ids: "idsOn d rt (identified d rt) n = idsBelow d rt n" for n
    unfolding idsOn_def idsBelow_def using assms climb_upTo identified_id by fastforce
  have "mapIdSets k d rt m = mapIdSetsLoop k d rt (identified d rt) m"
    unfolding mapIdSets_def by (subst mapIdSetsLoop_filter) (simp only: id_query)
  with mapIdSetsLoop_value[OF paths, of m] show ?thesis
    unfolding ids by simp
qed

lemma idDom_query: "querySelectorAll idDom 10 (HasAttr ''id'') = [11]"
  by code_simp

lemma idDom_path: "pathUp 2 idDom 10 11 = Some [11, 10]"
  by code_simp

lemma idDom_ids: "elementId idDom 10 = ''r''" "elementId idDom 11 = ''a''"
  by code_simp+

lemma idDom_identified: "identified idDom 10 = [11]"
  by code_simp

lemma idDom_climb: "climb 2 idDom 10 11 = Some [11, 10]"
  by code_simp

theorem mapIdSets_union_witness:
  "identified idDom 10 = [11] \<and> climb 2 idDom 10 11 = Some [11, 10] \<and>
   (\<exists>m'. mapIdSets 2 idDom 10 [10 \<mapsto> {''z''}, 12 \<mapsto> {''y''}] = Inr m'
      \<and> m' 10 = Some {''z'', ''a''} \<and> m' 11 = Some {''a''} \<and> m' 12 = Some {''y''} \<and> m' 13 = None)"
proof -
  have hyp: "\<forall>e \<in> set (identified idDom 10). climb 2 idDom 10 e \<noteq> None"
    by (simp add: idDom_identified idDom_climb)
  have up: "ancestorUpTo idDom 10 11 n \<longleftrightarrow> n \<in> {11, 10}" for n
    using climb_ancestorUpTo[OF idDom_climb, of n] by simp
  have ids: "idsBelow idDom 10 n = (if n \<in> {11, 10} then {''a''} else {})" for n
    by (auto simp: idsBelow_def idDom_identified up idDom_ids)
  from mapIdSets_union[OF hyp, of "[10 \<mapsto> {''z''}, 12 \<mapsto> {''y''}]"] show ?thesis
    by (auto simp: idDom_identified idDom_climb ids getSet_def)
qed

text \<open>
  The claim as stated fails at the subtree root: in \<^verbatim>\<open><div id="r"><span id="a"></span></div>\<close>
  the root has the id \<^verbatim>\<open>r\<close> and is mapped to the set that holds \<^verbatim>\<open>a\<close> only.
\<close>

theorem mapIdSets_root_id_counterexample:
  "elementId idDom 10 = ''r'' \<and> \<not> isl (mapIdSets 2 idDom 10 Map.empty) \<and>
   projr (mapIdSets 2 idDom 10 Map.empty) 10 = Some {''a''} \<and> ''r'' \<notin> {''a''}"
proof -
  have hyp: "\<forall>e \<in> set [11]. pathUp 2 idDom 10 e \<noteq> None"
    by (simp add: idDom_path)
  have up: "upTo idDom 10 11 n \<longleftrightarrow> n \<in> {11, 10}" for n
    using pathUp_upTo[OF idDom_path, of n] by simp
  from mapIdSetsLoop_value[OF hyp, of Map.empty] show ?thesis
    by (auto simp: mapIdSets_def idDom_query idDom_ids up idsOn_def getSet_def)
qed

section \<open>The recursion, unfolded\<close>

lemma andThen_simps [simp]: "andThen (Inl e) f = Inl e" "andThen (Inr x) f = f x"
  by (simp_all add: andThen_def)

lemma morphNode_0 [simp]: "morphNode 0 M w n ref = Inl OutOfFuel"
  by (simp add: morphNode_def)

lemma morphNode_Suc:
  "morphNode (Suc k) M w n ref = morphNodeWith (morphChildNodes k M) M w n ref"
  by (simp add: morphNode_def morphChildNodes_def[abs_def])

lemma morphChildNodes_0 [simp]: "morphChildNodes 0 M w element ref = Inl OutOfFuel"
  by (simp add: morphChildNodes_def)

lemma morphChildNodes_Suc:
  "morphChildNodes (Suc k) M w element ref =
     andThen (morphChildNodesLoop k M w element ref 0)
       (\<lambda>w1. removeExcessChildren k M w1 element ref)"
  by (simp add: morphChildNodes_def morphChildNodesLoop_def)

lemma morphChildNodesLoop_0 [simp]: "morphChildNodesLoop 0 M w element ref i = Inl OutOfFuel"
  by (simp add: morphChildNodesLoop_def)

lemma morphChildNodesLoop_Suc:
  "morphChildNodesLoop (Suc k) M w element ref i =
     (if i < length (childNodes (nodes (doc w) ref)) then
        andThen (morphChildNodesStep (morphNode k M) (morphChildElement k M) M w element ref i)
          (\<lambda>w1. morphChildNodesLoop k M w1 element ref (Suc i))
      else Inr w)"
  by (simp add: morphChildNodesLoop_def[abs_def] morphNode_def[abs_def]
      morphChildElement_def[abs_def])

lemma morphChildElement_0 [simp]: "morphChildElement 0 M w child ref parent = Inl OutOfFuel"
  by (simp add: morphChildElement_def)

lemma morphChildElement_Suc:
  "morphChildElement (Suc k) M w child ref parent =
     morphChildElementWith (morphNode k M) k M w child ref parent"
  by (simp add: morphChildElement_def morphNode_def[abs_def])

section \<open>The best-match search and the after-morphed hook\<close>

text \<open>
  Claim C3 says that the after-morphed hook of the original child fires at the end of the
  best-match search whichever branch is taken.  In the list of section 8 the search for
  the first child (\<^verbatim>\<open>li#a\<close> at 11, paired with the reference \<^verbatim>\<open>li#b\<close> at 21) finds the
  sibling 13 by its id.  Line 275 returns the result of \<^verbatim>\<open>#morphNode\<close> for that sibling, and
  line 301 is not reached: the before-morphed hook has been called for the pair (11, 21),
  the after-morphed hook is never called for it.
\<close>

theorem morphChildElement_skips_after_hook:
  "findMatch 5 listMorph listDom 21 (Some 11) None = Inr (Matched 13) \<and>
   \<not> isl (morphChildElement 7 listMorph (start listDom) 11 21 10) \<and>
   trace (projr (morphChildElement 7 listMorph (start listDom) 11 21 10)) =
     [BeforeNodeMorphed 11 21, HostInsertBefore 10 13 (Some 11), BeforeNodeMorphed 13 21,
      BeforeNodeMorphed 14 22, BeforePropertyUpdated 14 NodeValue (PStr ''Y2''),
      HostAssign 14 NodeValue (PStr ''Y2''), AfterPropertyUpdated 14 NodeValue (PStr ''Y''),
      AfterNodeMorphed 14 22, AfterNodeMorphed 13 21] \<and>
   AfterNodeMorphed 11 21
     \<notin> set (trace (projr (morphChildElement 7 listMorph (start listDom) 11 21 10)))"
  by code_simp

section \<open>The text of a textarea\<close>

text \<open>
  Claim C6 says that the first child text node of the live textarea is synced to the value
  of the reference.  Line 219 takes \<^verbatim>\<open>firstElementChild\<close>, which is never a text node:
  the value of the textarea at 10 becomes \<^verbatim>\<open>typed\<close>, its text node 11 keeps \<^verbatim>\<open>old\<close>
  through \<^verbatim>\<open>#morphAttributes\<close>, and after the whole of \<^verbatim>\<open>#morphNode\<close> it holds the text of
  the reference's child, \<^verbatim>\<open>draft\<close>, not the reference's value.
\<close>

theorem textarea_text_not_synced:
  "firstElementChild areaDom 10 = None \<and>
   curValue (nodes (doc (morphAttributes (newMorph noHooks) (start areaDom) 10 20)) 10) = ''typed'' \<and>
   childNodes (nodes (doc (morphAttributes (newMorph noHooks) (start areaDom) 10 20)) 10) = [11] \<and>
   nodeValue (nodes (doc (morphAttributes (newMorph noHooks) (start areaDom) 10 20)) 11) = Some ''old'' \<and>
   \<not> isl (morphNode 7 (newMorph noHooks) (start areaDom) 10 20) \<and>
   curValue (nodes (doc (projr (morphNode 7 (newMorph noHooks) (start areaDom) 10 20))) 10) = ''typed'' \<and>
   childNodes (nodes (doc (projr (morphNode 7 (newMorph noHooks) (start areaDom) 10 20))) 10) = [11] \<and>
   nodeValue (nodes (doc (projr (morphNode 7 (newMorph noHooks) (start areaDom) 10 20))) 11) = Some ''draft''"
  by code_simp

section \<open>The clean-up loop under a veto\<close>

lemma removeNode_vetoed:
  "beforeNodeRemoved (options M) = Some h \<Longrightarrow> \<not> h (doc w) n \<Longrightarrow>
   removeNode M w n = emit (BeforeNodeRemoved n) w"
  by (simp add: removeNode_def askBefore_def)

lemma removeExcessChildren_diverges:
  assumes "beforeNodeRemoved (options M) = Some h" and "\<And>d n. \<not> h d n"
    and "length (childNodes (nodes (doc w) element)) > length (childNodes (nodes (doc w) ref))"
  shows "removeExcessChildren k M w element ref = Inl OutOfFuel"
  using assms(3)
proof (induction k arbitrary: w)
  case 0
  show ?case by simp
next
  case (Suc k)
  have "removeExcessChildren k M (emit e w) element ref = Inl OutOfFuel" for e
    using Suc.prems by (intro Suc.IH) simp
  with Suc show ?case
    by (simp add: removeNode_vetoed[OF assms(1) assms(2)] split: option.splits)
qed

text \<open>
  Claim C10 says that the clean-up loop of lines 246--249 ends for every set of hooks.
  With \<^verbatim>\<open>beforeNodeRemoved: () => false\<close> no child is ever removed, the condition of the
  loop stays true, and neither the loop nor \<^verbatim>\<open>#morphNode\<close> returns, whatever the fuel: here
  on the test ``removes excess elements''.
\<close>

theorem cleanup_never_ends_under_veto:
  "length (childNodes (nodes excessDom 10)) = 1 \<and> length (childNodes (nodes excessDom 20)) = 0 \<and>
   (\<forall>k. removeExcessChildren k (newMorph keepNodes) (start excessDom) 10 20 = Inl OutOfFuel) \<and>
   (\<forall>k. morphNode k (newMorph keepNodes) (start excessDom) 10 20 = Inl OutOfFuel)"
proof -
  let ?M = "newMorph keepNodes" and ?w = "start excessDom"
  have len: "length (childNodes (nodes excessDom 10)) = 1"
    "length (childNodes (nodes excessDom 20)) = 0"
    by code_simp+
  have hook: "beforeNodeRemoved (options ?M) = Some (\<lambda>_ _. False)"
    by (simp add: newMorph_def keepNodes_def)
  have loop: "removeExcessChildren k ?M ?w 10 20 = Inl OutOfFuel" for k
    by (rule removeExcessChildren_diverges[OF hook]) (simp_all add: start_def len)
  have index: "morphChildNodesLoop (Suc k) ?M ?w 10 20 0 = Inr ?w" for k
    by (simp add: morphChildNodesLoop_Suc start_def len)
  have kids: "morphChildNodes k ?M ?w 10 20 = Inl OutOfFuel" for k
  proof (cases k)
    case 0
    then show ?thesis by simp
  next
    case (Suc k1)
    then show ?thesis
      by (cases k1) (simp_all add: morphChildNodes_Suc index loop del: removeExcessChildren.simps)
  qed
  have facts: "isElement excessDom 10" "isElement excessDom 20"
    "localName (nodes excessDom 10) = localName (nodes excessDom 20)"
    "\<not> hasAttributes excessDom 10" "\<not> hasAttributes excessDom 20"
    "\<not> isHead excessDom 10" "hasChildNodes excessDom 10"
    by code_simp+
  have before: "beforeNodeMorphed (options ?M) = None"
    by (simp add: newMorph_def keepNodes_def noHooks_def)
  have "morphNode k ?M ?w 10 20 = Inl OutOfFuel" for k
  proof (cases k)
    case 0
    then show ?thesis by simp
  next
    case (Suc k1)
    then show ?thesis
      by (simp add: morphNode_Suc morphNodeWith_def askBefore_def before start_def facts
          kids[unfolded start_def])
  qed
  with len loop show ?thesis by simp
qed

section \<open>Markup without a node\<close>

text \<open>
  Claim C7.  When the markup, trimmed, parses to no node, \<^verbatim>\<open>morph\<close> throws the error of
  line 57 at once: no callback is queued for the next frame, no hook is called, and the
  tree is the one that the host's parser has left, the engine has written nothing to it.
\<close>

theorem morph_unparsable_markup:
  assumes "parse (trim s) (doc w) = (d', None)"
  shows "morph parse k w n (RefMarkup s) opts = (Some NoNodesError, w \<lparr> doc := d' \<rparr>)"
  using assms by (simp add: morph_def)

text \<open>
  A space, a no-break space, a byte order mark, an em space and a line feed: the string
  is trimmed to nothing, and nothing is what the parser finds in it.
\<close>

theorem morph_unparsable_markup_witness:
  "trim [0x20, 0xA0, 0xFEFF, 0x2003, 0x0A] = [] \<and> emptyParser [] excessDom = (excessDom, None) \<and>
   morph emptyParser 5 (start excessDom) 10 (RefMarkup [0x20, 0xA0, 0xFEFF, 0x2003, 0x0A]) noHooks
     = (Some NoNodesError, start excessDom)"
proof -
  have t: "trim [0x20, 0xA0, 0xFEFF, 0x2003, 0x0A] = []"
    by (simp add: trim_def isSpace_def)
  have p: "emptyParser (trim [0x20, 0xA0, 0xFEFF, 0x2003, 0x0A]) (doc (start excessDom))
      = (excessDom, None)"
    by (simp add: t emptyParser_def start_def)
  from morph_unparsable_markup[where parse = emptyParser
      and s = "[0x20, 0xA0, 0xFEFF, 0x2003, 0x0A]" and w = "start excessDom"
      and d' = excessDom and k = 5 and n = 10 and opts = noHooks, OF p] t show ?thesis
    by (simp add: emptyParser_def start_def)
qed

section \<open>The properties of an input\<close>

lemma updateProperty_doc:
  "doc (updateProperty M w n p v) =
     (if getProp (doc w) n p \<noteq> v \<and> permits M (doc w) n p v then setProp (doc w) n p v
      else doc w)"
  by (auto simp: updateProperty_def permits_def askBefore_def Let_def split: option.splits)

lemma updateProperty_trace:
  "set (trace (updateProperty M w n p v)) \<subseteq>
     set (trace w) \<union> {BeforePropertyUpdated n p v, HostAssign n p v,
                        AfterPropertyUpdated n p (getProp (doc w) n p)}"
  by (auto simp: updateProperty_def askBefore_def tellAfter_def emit_def Let_def
      split: option.splits if_splits)

lemma setProp_flags [simp]:
  "setProp d n Checked (PBool b) = updNode d n (\<lambda>x. x \<lparr> checked := b \<rparr>)"
  "setProp d n Disabled (PBool b) = updNode d n (\<lambda>x. x \<lparr> disabled := b \<rparr>)"
  "setProp d n Indeterminate (PBool b) = updNode d n (\<lambda>x. x \<lparr> indeterminate := b \<rparr>)"
  "setProp d n Value (PStr s) = updNode d n (\<lambda>x. x \<lparr> curValue := s \<rparr>)"
  by (simp_all add: setProp_def)

lemma getProp_flags [simp]:
  "getProp d n Checked = PBool (checked (nodes d n))"
  "getProp d n Disabled = PBool (disabled (nodes d n))"
  "getProp d n Indeterminate = PBool (indeterminate (nodes d n))"
  "getProp d n Value = PStr (curValue (nodes d n))"
  by (simp_all add: getProp_def)

lemma updNode_id: "f (nodes d n) = nodes d n \<Longrightarrow> updNode d n f = d"
  by (simp add: updNode_def)

lemma updateProperty_checked:
  "doc (updateProperty M w n Checked (PBool v)) =
     updNode (doc w) n (\<lambda>x. x \<lparr> checked :=
        (if permits M (doc w) n Checked (PBool v) then v else checked (nodes (doc w) n)) \<rparr>)"
proof (cases "checked (nodes (doc w) n) \<noteq> v \<and> permits M (doc w) n Checked (PBool v)")
  case True
  then show ?thesis by (simp add: updateProperty_doc)
next
  case False
  have "updNode (doc w) n (\<lambda>x. x \<lparr> checked :=
        (if permits M (doc w) n Checked (PBool v) then v else checked (nodes (doc w) n)) \<rparr>) = doc w"
    by (rule updNode_id) (use False in auto)
  then show ?thesis using False by (auto simp: updateProperty_doc)
qed

lemma updateProperty_disabled:
  "doc (updateProperty M w n Disabled (PBool v)) =
     updNode (doc w) n (\<lambda>x. x \<lparr> disabled :=
        (if permits M (doc w) n Disabled (PBool v) then v else disabled (nodes (doc w) n)) \<rparr>)"
proof (cases "disabled (nodes (doc w) n) \<noteq> v \<and> permits M (doc w) n Disabled (PBool v)")
  case True
  then show ?thesis by (simp add: updateProperty_doc)
next
  case False
  have "updNode (doc w) n (\<lambda>x. x \<lparr> disabled :=
        (if permits M (doc w) n Disabled (PBool v) then v else disabled (nodes (doc w) n)) \<rparr>) = doc w"
    by (rule updNode_id) (use False in auto)
  then show ?thesis using False by (auto simp: updateProperty_doc)
qed

lemma updateProperty_indeterminate:
  "doc (updateProperty M w n Indeterminate (PBool v)) =
     updNode (doc w) n (\<lambda>x. x \<lparr> indeterminate :=
        (if permits M (doc w) n Indeterminate (PBool v) then v else indeterminate (nodes (doc w) n)) \<rparr>)"
proof (cases "indeterminate (nodes (doc w) n) \<noteq> v \<and> permits M (doc w) n Indeterminate (PBool v)")
  case True
  then show ?thesis by (simp add: updateProperty_doc)
next
  case False
  have "updNode (doc w) n (\<lambda>x. x \<lparr> indeterminate :=
        (if permits M (doc w) n Indeterminate (PBool v) then v else indeterminate (nodes (doc w) n)) \<rparr>)
        = doc w"
    by (rule updNode_id) (use False in auto)
  then show ?thesis using False by (auto simp: updateProperty_doc)
qed

lemma updateProperty_value:
  "doc (updateProperty M w n Value (PStr v)) =
     updNode (doc w) n (\<lambda>x. x \<lparr> curValue :=
        (if permits M (doc w) n Value (PStr v) then v else curValue (nodes (doc w) n)) \<rparr>)"
proof (cases "curValue (nodes (doc w) n) \<noteq> v \<and> permits M (doc w) n Value (PStr v)")
  case True
  then show ?thesis by (simp add: updateProperty_doc)
next
  case False
  have "updNode (doc w) n (\<lambda>x. x \<lparr> curValue :=
        (if permits M (doc w) n Value (PStr v) then v else curValue (nodes (doc w) n)) \<rparr>) = doc w"
    by (rule updNode_id) (use False in auto)
  then show ?thesis using False by (auto simp: updateProperty_doc)
qed

text \<open>
  Claim C5, as the code has it.  Lines 205--214 send \<^verbatim>\<open>checked\<close>, \<^verbatim>\<open>disabled\<close> and
  \<^verbatim>\<open>indeterminate\<close>, in this order, through the property update of lines 304--310: each
  ends with the value of the reference when the before-property hook permits that
  assignment in the tree as it is at that moment (or when it holds that value already),
  and with the value it had otherwise.  The value goes the same way when none of the
  three conditions holds; when one holds the value stays and no hook is called and
  nothing is assigned for it.  The tree afterwards is the tree before with these four
  properties of the live input set so, and nothing else: the reference in particular is
  what it was.
\<close>

theorem syncInput_gated:
  assumes "element \<noteq> ref"
  shows "let d = doc w; e = nodes d element; r = nodes d ref;
             c = (if permits M d element Checked (PBool (checked r)) then checked r else checked e);
             d1 = updNode d element (\<lambda>x. x \<lparr> checked := c \<rparr>);
             b = (if permits M d1 element Disabled (PBool (disabled r))
                  then disabled r else disabled e);
             d2 = updNode d1 element (\<lambda>x. x \<lparr> disabled := b \<rparr>);
             i = (if permits M d2 element Indeterminate (PBool (indeterminate r))
                  then indeterminate r else indeterminate e);
             d3 = updNode d2 element (\<lambda>x. x \<lparr> indeterminate := i \<rparr>);
             v = (if \<not> valueBlocked M d element ref
                     \<and> permits M d3 element Value (PStr (curValue r))
                  then curValue r else curValue e);
             w' = syncInput M w element ref
         in doc w' = updNode d3 element (\<lambda>x. x \<lparr> curValue := v \<rparr>)
          \<and> nodes (doc w') element
              = e \<lparr> curValue := v, checked := c, disabled := b, indeterminate := i \<rparr>
          \<and> nodes (doc w') ref = r
          \<and> (valueBlocked M d element ref \<longrightarrow>
               set (trace w') \<inter> {ev. \<exists>x. ev \<in> {BeforePropertyUpdated element Value x,
                     HostAssign element Value x, AfterPropertyUpdated element Value x}}
                 \<subseteq> set (trace w))"
proof -
  define d where "d = doc w"
  define e where "e = nodes d element"
  define r where "r = nodes d ref"
  define c where "c = (if permits M d element Checked (PBool (checked r)) then checked r else checked e)"
  define d1 where "d1 = updNode d element (\<lambda>x. x \<lparr> checked := c \<rparr>)"
  define b where "b = (if permits M d1 element Disabled (PBool (disabled r))
                  then disabled r else disabled e)"
  define d2 where "d2 = updNode d1 element (\<lambda>x. x \<lparr> disabled := b \<rparr>)"
  define i where "i = (if permits M d2 element Indeterminate (PBool (indeterminate r))
                  then indeterminate r else indeterminate e)"
  define d3 where "d3 = updNode d2 element (\<lambda>x. x \<lparr> indeterminate := i \<rparr>)"
  define v where "v = (if \<not> valueBlocked M d element ref
                     \<and> permits M d3 element Value (PStr (curValue r))
                  then curValue r else curValue e)"
  define w1 where "w1 = updateProperty M w element Checked (PBool (checked r))"
  define w2 where "w2 = updateProperty M w1 element Disabled (PBool (disabled r))"
  define w3 where "w3 = updateProperty M w2 element Indeterminate (PBool (indeterminate r))"
  define w4 where "w4 = updateProperty M w3 element Value (PStr (curValue r))"
  have dw1: "doc w1 = d1"
    unfolding w1_def updateProperty_checked d1_def c_def d_def e_def by simp
  have e1: "nodes d1 element = e \<lparr> checked := c \<rparr>" and r1: "nodes d1 ref = r"
    using assms by (simp_all add: d1_def e_def r_def)
  have dw2: "doc w2 = d2"
    unfolding w2_def updateProperty_disabled dw1 d2_def b_def by (simp add: e1)
  have e2: "nodes d2 element = e \<lparr> checked := c, disabled := b \<rparr>" and r2: "nodes d2 ref = r"
    using assms by (simp_all add: d2_def e1 r1)
  have dw3: "doc w3 = d3"
    unfolding w3_def updateProperty_indeterminate dw2 d3_def i_def by (simp add: e2)
  have e3: "nodes d3 element = e \<lparr> checked := c, disabled := b, indeterminate := i \<rparr>"
    and r3: "nodes d3 ref = r" and a3: "activeElement d3 = activeElement d"
    using assms e2 r2 by (simp_all add: d3_def d2_def d1_def)
  have dw4: "doc w4 = updNode d3 element (\<lambda>x. x \<lparr> curValue :=
        (if permits M d3 element Value (PStr (curValue r)) then curValue r else curValue e) \<rparr>)"
    unfolding w4_def updateProperty_value dw3 by (simp add: e3)
  have keep: "updNode d3 element (\<lambda>x. x \<lparr> curValue := curValue e \<rparr>) = d3"
    by (rule updNode_id) (simp add: e3)
  have gate: "(inputType (nodes (doc w3) element) \<noteq> ''file''
            \<and> \<not> (ignoreActiveValue (options M) \<and> activeElement (doc w3) = Some element)
            \<and> \<not> (preserveModifiedValues (options M)
                 \<and> inputName (nodes (doc w3) element) = inputName (nodes (doc w3) ref)
                 \<and> curValue (nodes (doc w3) element) \<noteq> defaultValue (nodes (doc w3) element)))
          \<longleftrightarrow> \<not> valueBlocked M d element ref"
    unfolding valueBlocked_def dw3 e3 r3 a3 e_def r_def by auto
  have sync: "syncInput M w element ref = (if valueBlocked M d element ref then w3 else w4)"
  proof -
    have rr: "nodes (doc w1) ref = r" "nodes (doc w2) ref = r" "nodes (doc w3) ref = r"
      by (simp_all add: dw1 dw2 dw3 r1 r2 r3)
    have "syncInput M w element ref =
        (if inputType (nodes (doc w3) element) \<noteq> ''file''
            \<and> \<not> (ignoreActiveValue (options M) \<and> activeElement (doc w3) = Some element)
            \<and> \<not> (preserveModifiedValues (options M)
                 \<and> inputName (nodes (doc w3) element) = inputName (nodes (doc w3) ref)
                 \<and> curValue (nodes (doc w3) element) \<noteq> defaultValue (nodes (doc w3) element))
         then w4 else w3)"
      unfolding syncInput_def Let_def w4_def w3_def w2_def w1_def r_def d_def
      using rr[unfolded w3_def w2_def w1_def r_def d_def] by simp
    then show ?thesis unfolding gate by simp
  qed
  have fin: "doc (syncInput M w element ref) = updNode d3 element (\<lambda>x. x \<lparr> curValue := v \<rparr>)"
    unfolding sync v_def using dw3 dw4 keep by auto
  have tr: "set (trace w3) \<subseteq> set (trace w) \<union> {ev. \<exists>p x. p \<noteq> Value \<and> ev \<in> {BeforePropertyUpdated element p x,
                         HostAssign element p x, AfterPropertyUpdated element p x}}"
    using updateProperty_trace[of M w element Checked "PBool (checked r)"]
      updateProperty_trace[of M w1 element Disabled "PBool (disabled r)"]
      updateProperty_trace[of M w2 element Indeterminate "PBool (indeterminate r)"]
    unfolding w1_def[symmetric] w2_def[symmetric] w3_def[symmetric]
    by blast
  have tr': "set (trace w3) \<inter> {ev. \<exists>x. ev \<in> {BeforePropertyUpdated element Value x,
                         HostAssign element Value x, AfterPropertyUpdated element Value x}}
                       \<subseteq> set (trace w)"
    using tr by auto
  have el: "nodes (updNode d3 element (\<lambda>x. x \<lparr> curValue := v \<rparr>)) element
        = e \<lparr> curValue := v, checked := c, disabled := b, indeterminate := i \<rparr>"
    by (simp add: e3)
  have rf: "nodes (updNode d3 element (\<lambda>x. x \<lparr> curValue := v \<rparr>)) ref = r"
    using assms by (simp add: r3)
  have blocked: "valueBlocked M d element ref \<Longrightarrow>
      set (trace (syncInput M w element ref)) \<inter> {ev. \<exists>x. ev \<in> {BeforePropertyUpdated element Value x,
                     HostAssign element Value x, AfterPropertyUpdated element Value x}}
                 \<subseteq> set (trace w)"
    unfolding sync using tr' by simp
  show ?thesis
    unfolding Let_def d_def[symmetric] e_def[symmetric] r_def[symmetric] c_def[symmetric]
      d1_def[symmetric] b_def[symmetric] d2_def[symmetric] i_def[symmetric] d3_def[symmetric]
      v_def[symmetric] fin el rf
    using blocked by blast
qed

theorem syncInput_gated_witness:
  "(10::nat) \<noteq> 20 \<and> \<not> valueBlocked (newMorph noHooks) inputDom 10 20 \<and>
   checked (nodes inputDom 10) = False \<and> checked (nodes inputDom 20) = True \<and>
   curValue (nodes inputDom 10) = ''mine'' \<and> curValue (nodes inputDom 20) = ''theirs'' \<and>
   checked (nodes (doc (syncInput (newMorph noHooks) (start inputDom) 10 20)) 10) = True \<and>
   curValue (nodes (doc (syncInput (newMorph noHooks) (start inputDom) 10 20)) 10) = ''theirs'' \<and>
   checked (nodes (doc (syncInput (newMorph keepProperties) (start inputDom) 10 20)) 10) = False \<and>
   curValue (nodes (doc (syncInput (newMorph keepProperties) (start inputDom) 10 20)) 10) = ''mine''"
proof -
  have p: "permits (newMorph noHooks) d' n p v" for d' n p v
    by (simp add: permits_def newMorph_def noHooks_def)
  have q: "\<not> permits (newMorph keepProperties) d' n p v" for d' n p v
    by (simp add: permits_def newMorph_def noHooks_def keepProperties_def)
  have b: "\<not> valueBlocked (newMorph noHooks) inputDom 10 20"
    by code_simp
  have r: "checked (nodes inputDom 20) = True" "curValue (nodes inputDom 20) = ''theirs''"
    "checked (nodes inputDom 10) = False" "curValue (nodes inputDom 10) = ''mine''"
    by code_simp+
  from syncInput_gated[of 10 20 "start inputDom" "newMorph noHooks"]
       syncInput_gated[of 10 20 "start inputDom" "newMorph keepProperties"] b r show ?thesis
    by (simp add: Let_def p q start_def)
qed

text \<open>
  The claim as stated, without the hooks, fails: with \<^verbatim>\<open>beforePropertyUpdated: () => false\<close>
  the live input stays unchecked and keeps its value although no condition blocks the
  value.
\<close>

theorem syncInput_veto_counterexample:
  "checked (nodes inputDom 20) = True \<and>
   checked (nodes (doc (syncInput (newMorph keepProperties) (start inputDom) 10 20)) 10) = False \<and>
   \<not> valueBlocked (newMorph keepProperties) inputDom 10 20 \<and>
   curValue (nodes inputDom 20) = ''theirs'' \<and>
   curValue (nodes (doc (syncInput (newMorph keepProperties) (start inputDom) 10 20)) 10) = ''mine'' \<and>
   \<not> isl (morphNode 5 (newMorph keepProperties) (start inputDom) 10 20) \<and>
   checked (nodes (doc (projr (morphNode 5 (newMorph keepProperties) (start inputDom) 10 20))) 10)
     = False"
  by code_simp

section \<open>Sensitivity-aware insertion\<close>


lemma takeWhile_neq: "n \<notin> set A \<Longrightarrow> takeWhile (\<lambda>x. x \<noteq> n) (A @ n # B) = A"
  by (induction A) auto

lemma dropWhile_neq: "n \<notin> set A \<Longrightarrow> dropWhile (\<lambda>x. x \<noteq> n) (A @ n # B) = n # B"
  by (induction A) auto

lemma previousSibling_at:
  assumes "parentNode (nodes d n) = Some p" "childNodes (nodes d p) = A @ n # B" "n \<notin> set A"
  shows "previousSibling d n = (if A = [] then None else Some (last A))"
proof -
  have "takeWhile (\<lambda>x. x \<noteq> n) (A @ n # B) = A"
    using assms(3) by (rule takeWhile_neq)
  then show ?thesis using assms by (simp add: previousSibling_def Let_def)
qed

lemma nextSibling_at:
  assumes "parentNode (nodes d n) = Some p" "childNodes (nodes d p) = A @ n # B" "n \<notin> set A"
  shows "nextSibling d n = headOf B"
proof -
  have "dropWhile (\<lambda>x. x \<noteq> n) (A @ n # B) = n # B"
    using assms(3) by (rule dropWhile_neq)
  then show ?thesis using assms by (simp add: nextSibling_def headOf_def split: list.splits)
qed

lemma insertInto_Some: "y \<notin> set A \<Longrightarrow> insertInto x (Some y) (A @ y # B) = A @ x # y # B"
  by (simp add: insertInto_def takeWhile_neq dropWhile_neq)

lemma insertInto_headOf: "set A \<inter> set B = {} \<Longrightarrow> distinct B \<Longrightarrow> insertInto x (headOf B) (A @ B) = A @ x # B"
  by (cases B) (auto simp: insertInto_def headOf_def takeWhile_neq dropWhile_neq)

text \<open>Moving a child of \<open>p\<close> inside \<open>p\<close> changes the list of children of \<open>p\<close> and nothing else.\<close>

lemma hostInsertBefore_move:
  assumes par: "parentNode (nodes d x) = Some p" and xp: "x \<noteq> p"
    and r: "case r of None \<Rightarrow> True | Some y \<Rightarrow> y \<in> set (childNodes (nodes d p)) \<and> y \<noteq> x"
  shows "hostInsertBefore d p x r =
           Inr (updNode d p (\<lambda>c. c \<lparr> childNodes :=
                  insertInto x r (removeAll x (childNodes (nodes d p))) \<rparr>))"
proof -
  have nodeEq: "(nodes d x) \<lparr> parentNode := None, parentNode := Some p \<rparr> = nodes d x"
    using par by simp
  have "updNode (updNode (detach d x) p
          (\<lambda>c. c \<lparr> childNodes := insertInto x r (childNodes c) \<rparr>)) x
          (\<lambda>c. c \<lparr> parentNode := Some p \<rparr>)
        = updNode d p (\<lambda>c. c \<lparr> childNodes :=
            insertInto x r (removeAll x (childNodes (nodes d p))) \<rparr>)"
    using par xp nodeEq
    by (auto simp: detach_def updNode_def fun_eq_iff intro!: dom.equality)
  moreover have "r \<noteq> Some x" using r by (auto split: option.splits)
  ultimately show ?thesis
    using r by (auto simp: hostInsertBefore_def Let_def split: option.splits)
qed


lemma updNode_same:
  "childNodes (nodes d p) = L \<Longrightarrow> updNode d p (\<lambda>c. c \<lparr> childNodes := L \<rparr>) = d"
  by (auto simp: updNode_def fun_eq_iff intro!: dom.equality)

lemma updNode_twice:
  "updNode (updNode d p (\<lambda>c. c \<lparr> childNodes := L \<rparr>)) p (\<lambda>c. c \<lparr> childNodes := L' \<rparr>)
     = updNode d p (\<lambda>c. c \<lparr> childNodes := L' \<rparr>)"
  by (auto simp: updNode_def fun_eq_iff intro!: dom.equality)

lemma siblingsOk_updNode:
  assumes "siblingsOk d p" "set L = set (childNodes (nodes d p))" "distinct L"
  shows "siblingsOk (updNode d p (\<lambda>c. c \<lparr> childNodes := L \<rparr>)) p"
  using assms by (auto simp: siblingsOk_def)

lemma relocations_Nil [simp]: "relocations p [] after = []"
  by (simp add: relocations_def)

lemma relocations_Cons:
  "relocations p (x # run) after = HostInsertBefore p x (headOf after) # relocations p run (x # after)"
  by (simp add: relocations_def headOf_def)

lemma insertBeforeLoop_spec:
  assumes "childNodes (nodes (doc w) p) = rev rpre @ n # moved @ post"
    and "siblingsOk (doc w) p" and "length rpre < k"
  shows "\<exists>w'. insertBeforeLoop k M w p n ip s (previousSibling (doc w) n)
               = Inr (ip \<in> set (scanRun (get0 (sensivityMap M)) s ip rpre), w')
          \<and> doc w' = updNode (doc w) p (\<lambda>c. c \<lparr> childNodes :=
                 rev (drop (length (scanRun (get0 (sensivityMap M)) s ip rpre)) rpre)
                 @ n # rev (scanRun (get0 (sensivityMap M)) s ip rpre) @ moved @ post \<rparr>)
          \<and> trace w' = trace w
                 @ relocations p (scanRun (get0 (sensivityMap M)) s ip rpre) (moved @ post)
          \<and> frames w' = frames w"
  using assms
proof (induction rpre arbitrary: w moved k)
  case Nil
  then obtain k' where k: "k = Suc k'" by (cases k) auto
  from Nil have par: "parentNode (nodes (doc w) n) = Some p"
    by (auto simp: siblingsOk_def)
  have "previousSibling (doc w) n = None"
    using previousSibling_at[OF par, of "[]" "moved @ post"] Nil.prems(1) by simp
  then show ?case
    using updNode_same[OF Nil.prems(1)] by (simp add: k)
next
  case (Cons x xs)
  let ?\<sigma> = "get0 (sensivityMap M)"
  let ?L = "rev xs @ x # n # moved @ post"
  from Cons.prems obtain k' where k: "k = Suc k'" "length xs < k'" by (cases k) auto
  have L: "childNodes (nodes (doc w) p) = ?L" using Cons.prems(1) by simp
  have ok: "distinct ?L" "p \<notin> set ?L" "\<And>y. y \<in> set ?L \<Longrightarrow> parentNode (nodes (doc w) y) = Some p"
    using Cons.prems(2) unfolding siblingsOk_def L by auto
  have par: "parentNode (nodes (doc w) n) = Some p" "parentNode (nodes (doc w) x) = Some p"
    using ok(3) by auto
  have prev: "previousSibling (doc w) n = Some x"
    using previousSibling_at[OF par(1), of "rev xs @ [x]" "moved @ post"] L ok(1) by simp
  have nxt: "nextSibling (doc w) n = headOf (moved @ post)"
    using nextSibling_at[OF par(1), of "rev xs @ [x]" "moved @ post"] L ok(1) by simp
  show ?case
  proof (cases "?\<sigma> x < s")
    case False
    then show ?thesis
      using prev updNode_same[OF L] by (simp add: k)
  next
    case True
    have xp: "x \<noteq> p" using ok(2) by auto
    have r: "case headOf (moved @ post) of None \<Rightarrow> True
             | Some y \<Rightarrow> y \<in> set (childNodes (nodes (doc w) p)) \<and> y \<noteq> x"
      using ok(1) unfolding L by (cases "moved @ post") (auto simp: headOf_def)
    have rem: "removeAll x ?L = (rev xs @ [n]) @ (moved @ post)"
      using ok(1) by (simp add: removeAll_append)
    have ins: "insertInto x (headOf (moved @ post)) (removeAll x ?L) = rev xs @ n # (x # moved) @ post"
      unfolding rem using ok(1) by (subst insertInto_headOf) auto
    define d1 where "d1 = updNode (doc w) p (\<lambda>c. c \<lparr> childNodes := rev xs @ n # (x # moved) @ post \<rparr>)"
    have host: "hostInsertBefore (doc w) p x (headOf (moved @ post)) = Inr d1"
      unfolding d1_def hostInsertBefore_move[OF par(2) xp r] L ins ..
    define w1 where "w1 = emit (HostInsertBefore p x (headOf (moved @ post))) (w \<lparr> doc := d1 \<rparr>)"
    have step: "insertBeforeLoop k M w p n ip s (Some x) =
        (if x = ip then Inr (True, w1)
         else insertBeforeLoop k' M w1 p n ip s (previousSibling (doc w1) n))"
      using True by (simp add: k nxt host w1_def Let_def)
    have w1: "doc w1 = d1" "trace w1 = trace w @ [HostInsertBefore p x (headOf (moved @ post))]"
      "frames w1 = frames w"
      by (simp_all add: w1_def emit_def)
    show ?thesis
    proof (cases "x = ip")
      case True
      with \<open>?\<sigma> x < s\<close> show ?thesis
        unfolding prev step by (simp add: w1 d1_def relocations_Cons)
    next
      case False
      have L1: "childNodes (nodes (doc w1) p) = rev xs @ n # (x # moved) @ post"
        by (simp add: w1 d1_def)
      have ok1: "siblingsOk (doc w1) p"
        unfolding w1 d1_def
        by (rule siblingsOk_updNode[OF Cons.prems(2)]) (use ok(1) in \<open>auto simp: L\<close>)
      from Cons.IH[OF L1 ok1 k(2)] obtain w' where
        w': "insertBeforeLoop k' M w1 p n ip s (previousSibling (doc w1) n)
               = Inr (ip \<in> set (scanRun ?\<sigma> s ip xs), w')"
          "doc w' = updNode (doc w1) p (\<lambda>c. c \<lparr> childNodes :=
                 rev (drop (length (scanRun ?\<sigma> s ip xs)) xs)
                 @ n # rev (scanRun ?\<sigma> s ip xs) @ (x # moved) @ post \<rparr>)"
          "trace w' = trace w1 @ relocations p (scanRun ?\<sigma> s ip xs) ((x # moved) @ post)"
          "frames w' = frames w1"
        by blast
      have "insertBeforeLoop k M w p n ip s (previousSibling (doc w) n)
               = Inr (ip \<in> set (scanRun ?\<sigma> s ip (x # xs)), w')"
        unfolding prev step using False \<open>?\<sigma> x < s\<close> w'(1) by simp
      moreover have "doc w' = updNode (doc w) p (\<lambda>c. c \<lparr> childNodes :=
                 rev (drop (length (scanRun ?\<sigma> s ip (x # xs))) (x # xs))
                 @ n # rev (scanRun ?\<sigma> s ip (x # xs)) @ moved @ post \<rparr>)"
        using False \<open>?\<sigma> x < s\<close> by (simp add: w'(2) w1 d1_def updNode_twice)
      moreover have "trace w' = trace w @ relocations p (scanRun ?\<sigma> s ip (x # xs)) (moved @ post)"
        using False \<open>?\<sigma> x < s\<close> by (simp add: w'(3) w1 relocations_Cons)
      moreover have "frames w' = frames w" by (simp add: w'(4) w1)
      ultimately show ?thesis by blast
    qed
  qed
qed


lemma scanRun_prefix: "\<exists>rest. xs = scanRun \<sigma> s ip xs @ rest"
  by (induction xs) auto

lemma scanRun_last:
  "ip \<in> set (scanRun \<sigma> s ip xs) \<Longrightarrow> \<exists>r0. scanRun \<sigma> s ip xs = r0 @ [ip]"
proof (induction xs)
  case Nil
  then show ?case by simp
next
  case (Cons x xs)
  show ?case
  proof (cases "\<sigma> x < s \<and> x \<noteq> ip")
    case True
    with Cons obtain r0 where "scanRun \<sigma> s ip xs = r0 @ [ip]" by auto
    with True have "scanRun \<sigma> s ip (x # xs) = (x # r0) @ [ip]" by simp
    then show ?thesis by blast
  next
    case False
    with Cons.prems have "scanRun \<sigma> s ip (x # xs) = [] @ [ip]"
      by (auto split: if_splits)
    then show ?thesis by blast
  qed
qed

text \<open>
  Claim C4, as the code has it.  Let \<open>n\<close> be a sensitive element among the children of \<open>p\<close>
  and \<open>ip\<close> another child.  The preceding siblings of the run of section 4.9 are moved,
  the nearest first, each to the place just after \<open>n\<close>.  When the run has reached the
  insertion point, the method returns at line 335 and \<open>n\<close> itself is never inserted;
  otherwise the insertion of line 344 follows.  In both cases the children of \<open>p\<close> end in
  the order that the plain insertion of \<open>n\<close> before \<open>ip\<close> produces, and no other node is
  touched.
\<close>

theorem insertBefore_sensitive:
  assumes kids: "childNodes (nodes (doc w) p) = pre @ n # post"
    and ok: "siblingsOk (doc w) p"
    and ip: "ip \<in> set (pre @ post)"
    and el: "isElement (doc w) n" and pos: "0 < get0 (sensivityMap M) n"
    and fuel: "length pre < k"
  shows "\<exists>w'. insertBefore k M w p n ip = Inr w'
          \<and> childNodes (nodes (doc w') p) = insertInto n (Some ip) (pre @ post)
          \<and> trace w' = trace w
               @ relocations p (scanRun (get0 (sensivityMap M)) (get0 (sensivityMap M) n) ip (rev pre)) post
               @ (if ip \<in> set (scanRun (get0 (sensivityMap M)) (get0 (sensivityMap M) n) ip (rev pre))
                  then [] else [HostInsertBefore p n (Some ip)])
          \<and> (\<forall>z. z \<noteq> p \<longrightarrow> nodes (doc w') z = nodes (doc w) z)"
proof -
  let ?\<sigma> = "get0 (sensivityMap M)"
  define run where "run = scanRun ?\<sigma> (?\<sigma> n) ip (rev pre)"
  obtain rest where rest: "rev pre = run @ rest"
    unfolding run_def using scanRun_prefix by blast
  then have pre: "pre = rev rest @ rev run"
    by (metis rev_append rev_rev_ident)
  have dist: "distinct (pre @ n # post)" and pn: "p \<notin> set (pre @ n # post)"
    and par: "parentNode (nodes (doc w) n) = Some p"
    using ok unfolding siblingsOk_def kids by auto
  have nip: "n \<noteq> ip" using ip dist by auto
  have np: "n \<noteq> p" using pn by auto
  have kids': "childNodes (nodes (doc w) p) = rev (rev pre) @ n # [] @ post"
    using kids by simp
  from insertBeforeLoop_spec[OF kids' ok, of k M ip "?\<sigma> n"] fuel
  obtain w1 where w1:
    "insertBeforeLoop k M w p n ip (?\<sigma> n) (previousSibling (doc w) n) = Inr (ip \<in> set run, w1)"
    "doc w1 = updNode (doc w) p (\<lambda>c. c \<lparr> childNodes := rev (drop (length run) (rev pre)) @ n # rev run @ post \<rparr>)"
    "trace w1 = trace w @ relocations p run post" "frames w1 = frames w"
    unfolding run_def by auto
  have L1: "childNodes (nodes (doc w1) p) = rev rest @ n # rev run @ post"
    by (simp add: w1(2) rest)
  have others: "z \<noteq> p \<Longrightarrow> nodes (doc w1) z = nodes (doc w) z" for z
    by (simp add: w1(2))
  have start: "insertBefore k M w p n ip =
      (if ip \<in> set run then Inr w1
       else andThen (hostInsertBefore (doc w1) p n (Some ip))
              (\<lambda>d'. Inr (emit (HostInsertBefore p n (Some ip)) (w1 \<lparr> doc := d' \<rparr>))))"
    using nip el pos by (simp add: insertBefore_def w1(1))
  show ?thesis
  proof (cases "ip \<in> set run")
    case True
    then obtain r0 where r0: "run = r0 @ [ip]"
      unfolding run_def using scanRun_last by blast
    have "ip \<notin> set (rev rest)" using dist unfolding pre r0 by auto
    then have "insertInto n (Some ip) (pre @ post) = rev rest @ n # rev run @ post"
      unfolding pre r0 using insertInto_Some[of ip "rev rest" n "rev r0 @ post"] by simp
    with True show ?thesis
      unfolding start run_def[symmetric] by (simp add: L1 w1(3) others)
  next
    case False
    have r: "case Some ip of None \<Rightarrow> True
             | Some y \<Rightarrow> y \<in> set (childNodes (nodes (doc w1) p)) \<and> y \<noteq> n"
      using ip nip unfolding L1 pre by auto
    have par1: "parentNode (nodes (doc w1) n) = Some p"
      using par np by (simp add: others)
    have rem: "removeAll n (rev rest @ n # rev run @ post) = pre @ post"
      using dist unfolding pre by (simp add: removeAll_append)
    define w2 where "w2 = emit (HostInsertBefore p n (Some ip))
       (w1 \<lparr> doc := updNode (doc w1) p (\<lambda>c. c \<lparr> childNodes := insertInto n (Some ip) (pre @ post) \<rparr>) \<rparr>)"
    have host: "hostInsertBefore (doc w1) p n (Some ip) = Inr (updNode (doc w1) p
        (\<lambda>c. c \<lparr> childNodes := insertInto n (Some ip) (pre @ post) \<rparr>))"
      using hostInsertBefore_move[OF par1 np r] unfolding L1 rem .
    have "insertBefore k M w p n ip = Inr w2"
      unfolding start w2_def using False by (simp add: host)
    moreover have "childNodes (nodes (doc w2) p) = insertInto n (Some ip) (pre @ post)"
      "trace w2 = trace w @ relocations p run post @ [HostInsertBefore p n (Some ip)]"
      "\<And>z. z \<noteq> p \<Longrightarrow> nodes (doc w2) z = nodes (doc w) z"
      by (simp_all add: w2_def emit_def w1(3) others)
    ultimately show ?thesis
      unfolding run_def[symmetric] using False by simp
  qed
qed

lemma moveMorph_scores:
  "get0 (sensivityMap moveMorph) 11 = 0" "get0 (sensivityMap moveMorph) 12 = 3"
  "get0 (sensivityMap moveMorph) 13 = 0" "get0 (sensivityMap moveMorph) 14 = 2"
  by code_simp+

theorem insertBefore_sensitive_witness:
  "childNodes (nodes moveDom 10) = [11, 12, 13] @ 14 # [] \<and> siblingsOk moveDom 10 \<and>
   isElement moveDom 14 \<and> get0 (sensivityMap moveMorph) 14 = 2 \<and>
   scanRun (get0 (sensivityMap moveMorph)) 2 11 (rev [11, 12, 13]) = [13] \<and>
   \<not> isl (insertBefore 5 moveMorph (start moveDom) 10 14 11) \<and>
   childNodes (nodes (doc (projr (insertBefore 5 moveMorph (start moveDom) 10 14 11))) 10)
     = [14, 11, 12, 13] \<and>
   trace (projr (insertBefore 5 moveMorph (start moveDom) 10 14 11))
     = [HostInsertBefore 10 13 None, HostInsertBefore 10 14 (Some 11)]"
proof -
  have kids: "childNodes (nodes (doc (start moveDom)) 10) = [11, 12, 13] @ 14 # []"
    by code_simp
  have ok: "siblingsOk (doc (start moveDom)) 10" by code_simp
  have el: "isElement (doc (start moveDom)) 14" by code_simp
  have run: "scanRun (get0 (sensivityMap moveMorph)) 2 11 (rev [11, 12, 13]) = [13]"
    by (simp add: moveMorph_scores)
  from insertBefore_sensitive[OF kids ok _ el, of 11 moveMorph 5]
  show ?thesis
    using kids ok el
    by (auto simp: moveMorph_scores run insertInto_def relocations_def headOf_def start_def)
qed

text \<open>
  The claim as stated ends with the ordinary insertion in every case.  With the span at 13
  as insertion point the span is moved behind the input and the method returns: the input
  is not inserted.
\<close>

theorem insertBefore_returns_early_counterexample:
  "get0 (sensivityMap moveMorph) 14 = 2 \<and>
   \<not> isl (insertBefore 5 moveMorph (start moveDom) 10 14 13) \<and>
   trace (projr (insertBefore 5 moveMorph (start moveDom) 10 14 13)) = [HostInsertBefore 10 13 None] \<and>
   HostInsertBefore 10 14 (Some 13) \<notin> set (trace (projr (insertBefore 5 moveMorph (start moveDom) 10 14 13))) \<and>
   childNodes (nodes (doc (projr (insertBefore 5 moveMorph (start moveDom) 10 14 13))) 10)
     = [11, 12, 14, 13]"
  by code_simp

section \<open>The reference is read only\<close>

lemma regionI:
  assumes "A \<subseteq> W"
    and "\<And>a c. a \<in> A \<Longrightarrow> a < nextId d \<Longrightarrow> c \<in> set (childNodes (nodes d a)) \<Longrightarrow>
           c \<in> A \<and> c < nextId d \<and> parentNode (nodes d c) = Some a"
    and "\<And>a q. a \<in> A \<Longrightarrow> a < nextId d \<Longrightarrow> parentNode (nodes d a) = Some q \<Longrightarrow> q \<in> W"
    and "\<And>a. nextId d \<le> a \<Longrightarrow> a \<in> A"
  shows "region A W d"
  unfolding region_def using assms by blast

lemma region_sub: "region A W d \<Longrightarrow> A \<subseteq> W"
  unfolding region_def by blast

lemma region_child:
  "region A W d \<Longrightarrow> a \<in> A \<Longrightarrow> a < nextId d \<Longrightarrow> c \<in> set (childNodes (nodes d a)) \<Longrightarrow>
     c \<in> A \<and> c < nextId d \<and> parentNode (nodes d c) = Some a"
  unfolding region_def by blast

lemma region_parent:
  "region A W d \<Longrightarrow> a \<in> A \<Longrightarrow> a < nextId d \<Longrightarrow> parentNode (nodes d a) = Some q \<Longrightarrow> q \<in> W"
  unfolding region_def by blast

lemma region_fresh: "region A W d \<Longrightarrow> nextId d \<le> a \<Longrightarrow> a \<in> A"
  unfolding region_def by blast

lemma keeps_refl [simp]: "keeps W d d"
  by (simp add: keeps_def)

lemma keeps_trans: "keeps W d d' \<Longrightarrow> keeps W d' d'' \<Longrightarrow> keeps W d d''"
  unfolding keeps_def by (metis le_trans)

lemma keeps_updNode: "m \<in> W \<Longrightarrow> keeps W d (updNode d m f)"
  unfolding keeps_def by simp

text \<open>An update of a live node that leaves its links alone.\<close>

lemma region_updNode_data:
  assumes r: "region A W d"
    and f: "\<And>x. childNodes (f x) = childNodes x" "\<And>x. parentNode (f x) = parentNode x"
  shows "region A W (updNode d m f)"
proof (rule regionI)
  show "A \<subseteq> W" using r by (rule region_sub)
next
  fix a c
  assume "a \<in> A" "a < nextId (updNode d m f)" "c \<in> set (childNodes (nodes (updNode d m f) a))"
  then have "a \<in> A" "a < nextId d" "c \<in> set (childNodes (nodes d a))"
    by (simp_all add: f split: if_splits)
  from region_child[OF r this]
  show "c \<in> A \<and> c < nextId (updNode d m f) \<and> parentNode (nodes (updNode d m f) c) = Some a"
    by (auto simp: f)
next
  fix a q
  assume "a \<in> A" "a < nextId (updNode d m f)" "parentNode (nodes (updNode d m f) a) = Some q"
  then have "a \<in> A" "a < nextId d" "parentNode (nodes d a) = Some q"
    by (simp_all add: f split: if_splits)
  from region_parent[OF r this] show "q \<in> W" .
next
  fix a assume "nextId (updNode d m f) \<le> a"
  then show "a \<in> A" using region_fresh[OF r] by simp
qed

lemma orphan_no_parent:
  "region A W d \<Longrightarrow> parentNode (nodes d m) = None \<Longrightarrow> orphan A d m"
  unfolding orphan_def
proof (intro ballI impI notI)
  fix a assume "region A W d" "parentNode (nodes d m) = None" "a \<in> A" "a < nextId d"
    "m \<in> set (childNodes (nodes d a))"
  from region_child[OF this(1,3,4,5)] this(2) show False by simp
qed

text \<open>Linking an orphan below a live node.\<close>

lemma region_link:
  assumes r: "region A W d" and p: "p \<in> A" "p < nextId d" and m: "m \<in> A" "m < nextId d"
    and o: "orphan A d m"
    and L: "set L \<subseteq> insert m (set (childNodes (nodes d p)))"
  shows "region A W (updNode (updNode d p (\<lambda>x. x \<lparr> childNodes := L \<rparr>)) m
                       (\<lambda>x. x \<lparr> parentNode := Some p \<rparr>))"
    (is "region A W ?d'")
proof (rule regionI)
  show "A \<subseteq> W" using r by (rule region_sub)
next
  fix a c
  assume a: "a \<in> A" "a < nextId ?d'" and c: "c \<in> set (childNodes (nodes ?d' a))"
  have a': "a < nextId d" using a(2) by simp
  show "c \<in> A \<and> c < nextId ?d' \<and> parentNode (nodes ?d' c) = Some a"
  proof (cases "a = p")
    case True
    with c have "c \<in> set L" by (simp split: if_splits)
    with L have "c = m \<or> c \<in> set (childNodes (nodes d p))" by auto
    then show ?thesis
    proof
      assume "c = m"
      with m True show ?thesis by simp
    next
      assume cp: "c \<in> set (childNodes (nodes d p))"
      from region_child[OF r p cp] True show ?thesis by auto
    qed
  next
    case False
    with c have cd: "c \<in> set (childNodes (nodes d a))" by (simp split: if_splits)
    from region_child[OF r a(1) a' cd]
    have c3: "c \<in> A" "c < nextId d" "parentNode (nodes d c) = Some a" by auto
    have "c \<noteq> m" using o a(1) a' cd unfolding orphan_def by blast
    with c3 show ?thesis by auto
  qed
next
  fix a q
  assume a: "a \<in> A" "a < nextId ?d'" and q: "parentNode (nodes ?d' a) = Some q"
  show "q \<in> W"
  proof (cases "a = m")
    case True
    with q have "q = p" by simp
    with p region_sub[OF r] show ?thesis by auto
  next
    case False
    with q have "parentNode (nodes d a) = Some q" by (simp split: if_splits)
    with region_parent[OF r a(1)] a(2) show ?thesis by simp
  qed
next
  fix a assume "nextId ?d' \<le> a"
  then show "a \<in> A" using region_fresh[OF r] by simp
qed

text \<open>Taking a live node out of its list.\<close>

lemma updNode_children_const:
  "updNode d q (\<lambda>x. x \<lparr> childNodes := f (childNodes x) \<rparr>)
     = updNode d q (\<lambda>x. x \<lparr> childNodes := f (childNodes (nodes d q)) \<rparr>)"
  by (simp add: updNode_def)

lemma detach_alt:
  "detach d m =
     (case parentNode (nodes d m) of
        None \<Rightarrow> d
      | Some q \<Rightarrow>
          updNode (updNode d q (\<lambda>x. x \<lparr> childNodes := removeAll m (childNodes (nodes d q)) \<rparr>))
            m (\<lambda>x. x \<lparr> parentNode := None \<rparr>))"
  unfolding detach_def updNode_children_const[where f = "removeAll m"] ..

lemma region_detach:
  assumes r: "region A W d" and m: "m \<in> A" "m < nextId d"
    and q: "\<And>q. parentNode (nodes d m) = Some q \<Longrightarrow> q \<in> A \<and> q < nextId d"
  shows "region A W (detach d m)" and "orphan A (detach d m) m"
    and "keeps W d (detach d m)" and "nextId (detach d m) = nextId d"
proof -
  show "nextId (detach d m) = nextId d"
    by (simp add: detach_alt split: option.splits)
  show "keeps W d (detach d m)"
  proof (cases "parentNode (nodes d m)")
    case None
    then show ?thesis by (simp add: detach_alt)
  next
    case (Some q0)
    with q region_sub[OF r] m(1) have "q0 \<in> W" "m \<in> W" by auto
    then have "a \<notin> W \<Longrightarrow> a \<noteq> q0 \<and> a \<noteq> m" for a by blast
    then show ?thesis by (simp add: detach_alt Some keeps_def)
  qed
  show "region A W (detach d m)" "orphan A (detach d m) m"
  proof -
    have "region A W (detach d m) \<and> orphan A (detach d m) m"
    proof (cases "parentNode (nodes d m)")
      case None
      then show ?thesis using r orphan_no_parent[OF r None] by (simp add: detach_alt)
    next
      case (Some q0)
      from q[OF Some] have q0: "q0 \<in> A" "q0 < nextId d" by auto
      let ?d' = "updNode (updNode d q0 (\<lambda>x. x \<lparr> childNodes := removeAll m (childNodes (nodes d q0)) \<rparr>))
            m (\<lambda>x. x \<lparr> parentNode := None \<rparr>)"
      have eq: "detach d m = ?d'" by (simp add: detach_alt Some)
      have inlist: "a = q0" if "a \<in> A" "a < nextId d" "m \<in> set (childNodes (nodes d a))" for a
      proof -
        from region_child[OF r that] have "parentNode (nodes d m) = Some a" by simp
        with Some show ?thesis by simp
      qed
      have kids0: "childNodes (nodes ?d' a) =
          (if a = q0 then removeAll m (childNodes (nodes d q0)) else childNodes (nodes d a))" for a
        by simp
      have kids: "set (childNodes (nodes ?d' a)) \<subseteq> set (childNodes (nodes d a))" for a
        unfolding kids0 by auto
      have nom: "m \<notin> set (childNodes (nodes ?d' a))" if "a \<in> A" "a < nextId d" for a
      proof (cases "a = q0")
        case True
        then show ?thesis unfolding kids0 by simp
      next
        case False
        with inlist[OF that] show ?thesis unfolding kids0 by auto
      qed
      have orph: "orphan A ?d' m"
        unfolding orphan_def using nom by simp
      have reg: "region A W ?d'"
      proof (rule regionI)
        show "A \<subseteq> W" using r by (rule region_sub)
      next
        fix a c
        assume a: "a \<in> A" "a < nextId ?d'" and c: "c \<in> set (childNodes (nodes ?d' a))"
        have a': "a < nextId d" using a(2) by simp
        from kids[of a] c have cd1: "c \<in> set (childNodes (nodes d a))" by blast
        from nom[OF a(1) a'] c have cd2: "c \<noteq> m" by blast
        note cd = cd1 cd2
        from region_child[OF r a(1) a' cd(1)]
        have c3: "c \<in> A" "c < nextId d" "parentNode (nodes d c) = Some a" by simp_all
        have "parentNode (nodes ?d' c) = parentNode (nodes d c)"
          using cd(2) by simp
        with c3 show "c \<in> A \<and> c < nextId ?d' \<and> parentNode (nodes ?d' c) = Some a" by simp
      next
        fix a q
        assume a: "a \<in> A" "a < nextId ?d'" and q: "parentNode (nodes ?d' a) = Some q"
        from q have "a \<noteq> m" by (cases "a = m") simp_all
        with q have "parentNode (nodes d a) = Some q" by (simp split: if_splits)
        with region_parent[OF r a(1)] a(2) show "q \<in> W" by simp
      next
        fix a assume "nextId ?d' \<le> a"
        then show "a \<in> A" using region_fresh[OF r] by simp
      qed
      from reg orph show ?thesis unfolding eq by simp
    qed
    then show "region A W (detach d m)" "orphan A (detach d m) m" by simp_all
  qed
qed

lemma set_insertInto: "set (insertInto x r xs) \<subseteq> insert x (set xs)"
proof (cases r)
  case None
  then show ?thesis by (auto simp: insertInto_def)
next
  case (Some y)
  have "set (takeWhile (\<lambda>z. z \<noteq> y) xs) \<subseteq> set xs" "set (dropWhile (\<lambda>z. z \<noteq> y) xs) \<subseteq> set xs"
    by (auto dest: set_takeWhileD set_dropWhileD)
  then show ?thesis unfolding insertInto_def Some by auto
qed

lemma keeps_two: "p \<in> W \<Longrightarrow> m \<in> W \<Longrightarrow> keeps W d (updNode (updNode d p f) m g)"
  unfolding keeps_def by auto

lemma region_hostInsertBefore:
  assumes r: "region A W d" and p: "p \<in> A" "p < nextId d" and m: "m \<in> A" "m < nextId d"
    and q: "\<And>q. parentNode (nodes d m) = Some q \<Longrightarrow> q \<in> A \<and> q < nextId d"
    and res: "hostInsertBefore d p m ref = Inr d'"
  shows "region A W d'" and "keeps W d d'" and "nextId d' = nextId d"
proof -
  define r' where "r' = (if ref = Some m then nextSibling d m else ref)"
  define d1 where "d1 = detach d m"
  define L where "L = insertInto m r' (childNodes (nodes d1 p))"
  note det = region_detach[OF r m q, folded d1_def]
  have d': "d' = updNode (updNode d1 p (\<lambda>x. x \<lparr> childNodes := L \<rparr>)) m
                   (\<lambda>x. x \<lparr> parentNode := Some p \<rparr>)"
    using res unfolding hostInsertBefore_def Let_def r'_def[symmetric] d1_def[symmetric] L_def
      updNode_children_const[where f = "insertInto m r'"]
    by (simp split: if_splits)
  have p1: "p < nextId d1" and m1: "m < nextId d1" using p(2) m(2) det(4) by simp_all
  have sub: "set L \<subseteq> insert m (set (childNodes (nodes d1 p)))"
    unfolding L_def by (rule set_insertInto)
  show "region A W d'"
    unfolding d' by (rule region_link[OF det(1) p(1) p1 m(1) m1 det(2) sub])
  have "keeps W d1 d'"
    unfolding d' using region_sub[OF r] p(1) m(1) by (intro keeps_two) auto
  with det(3) show "keeps W d d'" by (rule keeps_trans)
  show "nextId d' = nextId d" unfolding d' using det(4) by simp
qed

lemma region_hostAppendChild:
  assumes r: "region A W d" and p: "p \<in> A" "p < nextId d" and m: "m \<in> A" "m < nextId d"
    and q: "\<And>q. parentNode (nodes d m) = Some q \<Longrightarrow> q \<in> A \<and> q < nextId d"
  shows "region A W (hostAppendChild d p m)" and "keeps W d (hostAppendChild d p m)"
    and "nextId (hostAppendChild d p m) = nextId d"
proof -
  define d1 where "d1 = detach d m"
  define L where "L = childNodes (nodes d1 p) @ [m]"
  note det = region_detach[OF r m q, folded d1_def]
  have d': "hostAppendChild d p m = updNode (updNode d1 p (\<lambda>x. x \<lparr> childNodes := L \<rparr>)) m
                   (\<lambda>x. x \<lparr> parentNode := Some p \<rparr>)"
    unfolding hostAppendChild_def Let_def d1_def[symmetric] L_def
      updNode_children_const[where f = "\<lambda>xs. xs @ [m]"] ..
  have p1: "p < nextId d1" and m1: "m < nextId d1" using p(2) m(2) det(4) by simp_all
  have sub: "set L \<subseteq> insert m (set (childNodes (nodes d1 p)))"
    unfolding L_def by auto
  show "region A W (hostAppendChild d p m)"
    unfolding d' by (rule region_link[OF det(1) p(1) p1 m(1) m1 det(2) sub])
  have "keeps W d1 (hostAppendChild d p m)"
    unfolding d' using region_sub[OF r] p(1) m(1) by (intro keeps_two) auto
  with det(3) show "keeps W d (hostAppendChild d p m)" by (rule keeps_trans)
  show "nextId (hostAppendChild d p m) = nextId d" unfolding d' using det(4) by simp
qed

lemma detach_no_parent: "parentNode (nodes d m) = None \<Longrightarrow> detach d m = d"
  by (simp add: detach_def)

lemma region_hostReplaceWith:
  assumes r: "region A W d" and m: "m \<in> A" "m < nextId d"
    and new: "new \<in> A" "new < nextId d" "parentNode (nodes d new) = None"
  shows "region A W (hostReplaceWith d m new)" and "keeps W d (hostReplaceWith d m new)"
    and "nextId (hostReplaceWith d m new) = nextId d"
proof -
  have "region A W (hostReplaceWith d m new) \<and> keeps W d (hostReplaceWith d m new)
        \<and> nextId (hostReplaceWith d m new) = nextId d"
  proof (cases "parentNode (nodes d m)")
    case None
    then show ?thesis using r by (simp add: hostReplaceWith_def)
  next
    case (Some q)
    have qW: "q \<in> W" using region_parent[OF r m Some] .
    have nm: "new \<noteq> m" using Some new(3) by auto
    define L where "L = map (\<lambda>c. if c = m then new else c) (childNodes (nodes d q))"
    let ?d' = "updNode (updNode (updNode d q (\<lambda>x. x \<lparr> childNodes := L \<rparr>)) m
                 (\<lambda>x. x \<lparr> parentNode := None \<rparr>)) new (\<lambda>x. x \<lparr> parentNode := Some q \<rparr>)"
    have eq: "hostReplaceWith d m new = ?d'"
      unfolding hostReplaceWith_def Let_def L_def detach_no_parent[OF new(3)]
        updNode_children_const[where f = "map (\<lambda>c. if c = m then new else c)"]
      by (simp add: Some)
    have kids: "childNodes (nodes ?d' a) = (if a = q then L else childNodes (nodes d a))" for a
      by simp
    have pars: "parentNode (nodes ?d' a) =
        (if a = new then Some q else if a = m then None else parentNode (nodes d a))" for a
      by simp
    have orph: "orphan A d new" using orphan_no_parent[OF r new(3)] .
    have reg: "region A W ?d'"
    proof (rule regionI)
      show "A \<subseteq> W" using r by (rule region_sub)
    next
      fix a c
      assume a: "a \<in> A" "a < nextId ?d'" and c: "c \<in> set (childNodes (nodes ?d' a))"
      have a': "a < nextId d" using a(2) by simp
      show "c \<in> A \<and> c < nextId ?d' \<and> parentNode (nodes ?d' c) = Some a"
      proof (cases "a = q")
        case True
        from c have "c \<in> set L" unfolding kids True by simp
        then have "c = new \<or> (c \<in> set (childNodes (nodes d q)) \<and> c \<noteq> m)"
          unfolding L_def by auto
        then show ?thesis
        proof
          assume "c = new"
          with new True show ?thesis unfolding pars by simp
        next
          assume cq: "c \<in> set (childNodes (nodes d q)) \<and> c \<noteq> m"
          with a a' True have cin: "c \<in> set (childNodes (nodes d a))" by simp
          from region_child[OF r a(1) a' cin]
          have c3: "c \<in> A" "c < nextId d" "parentNode (nodes d c) = Some a" by simp_all
          have "c \<noteq> new" using orph a(1) a' cin unfolding orphan_def by blast
          with cq c3 show ?thesis unfolding pars by simp
        qed
      next
        case False
        from c have cin: "c \<in> set (childNodes (nodes d a))" unfolding kids using False by simp
        from region_child[OF r a(1) a' cin]
        have c3: "c \<in> A" "c < nextId d" "parentNode (nodes d c) = Some a" by simp_all
        have "c \<noteq> new" using orph a(1) a' cin unfolding orphan_def by blast
        moreover have "c \<noteq> m" using c3(3) Some False by auto
        ultimately show ?thesis using c3 unfolding pars by simp
      qed
    next
      fix a q'
      assume a: "a \<in> A" "a < nextId ?d'" and q': "parentNode (nodes ?d' a) = Some q'"
      show "q' \<in> W"
      proof (cases "a = new")
        case True
        with q' qW show ?thesis unfolding pars by simp
      next
        case False
        with q' have "a \<noteq> m" "parentNode (nodes d a) = Some q'"
          unfolding pars by (simp_all split: if_splits)
        with region_parent[OF r a(1)] a(2) show ?thesis by simp
      qed
    next
      fix a assume "nextId ?d' \<le> a"
      then show "a \<in> A" using region_fresh[OF r] by simp
    qed
    have "a \<notin> W \<Longrightarrow> a \<noteq> q \<and> a \<noteq> m \<and> a \<noteq> new" for a
      using qW m(1) new(1) region_sub[OF r] by blast
    then have "keeps W d ?d'" unfolding keeps_def by simp
    with reg show ?thesis unfolding eq by simp
  qed
  then show "region A W (hostReplaceWith d m new)" "keeps W d (hostReplaceWith d m new)"
    "nextId (hostReplaceWith d m new) = nextId d" by simp_all
qed

lemma region_set_children:
  assumes r: "region A W d" and p: "p \<in> A" "p < nextId d"
    and L: "\<And>c. c \<in> set L \<Longrightarrow> c \<in> A \<and> c < nextId d \<and> parentNode (nodes d c) = Some p"
  shows "region A W (updNode d p (\<lambda>x. x \<lparr> childNodes := L \<rparr>))" (is "region A W ?d'")
proof (rule regionI)
  show "A \<subseteq> W" using r by (rule region_sub)
next
  fix a c
  assume a: "a \<in> A" "a < nextId ?d'" and c: "c \<in> set (childNodes (nodes ?d' a))"
  have a': "a < nextId d" using a(2) by simp
  have par: "parentNode (nodes ?d' c) = parentNode (nodes d c)" by simp
  show "c \<in> A \<and> c < nextId ?d' \<and> parentNode (nodes ?d' c) = Some a"
  proof (cases "a = p")
    case True
    with c have "c \<in> set L" by simp
    from L[OF this] True show ?thesis unfolding par by simp
  next
    case False
    with c have "c \<in> set (childNodes (nodes d a))" by simp
    from region_child[OF r a(1) a' this] show ?thesis unfolding par by simp
  qed
next
  fix a q
  assume a: "a \<in> A" "a < nextId ?d'" and q: "parentNode (nodes ?d' a) = Some q"
  from q have "parentNode (nodes d a) = Some q" by (simp split: if_splits)
  with region_parent[OF r a(1)] a(2) show "q \<in> W" by simp
next
  fix a assume "nextId ?d' \<le> a"
  then show "a \<in> A" using region_fresh[OF r] by simp
qed

text \<open>Allocating a node without children at the next fresh address.\<close>

lemma region_alloc:
  assumes r: "region A W d" and par: "\<And>q. parentNode nd = Some q \<Longrightarrow> q \<in> W"
    and kids: "childNodes nd = []"
  shows "region A W (d \<lparr> nodes := (nodes d)(nextId d := nd), nextId := Suc (nextId d) \<rparr>)"
    (is "region A W ?d'")
proof (rule regionI)
  show "A \<subseteq> W" using r by (rule region_sub)
next
  fix a c
  assume a: "a \<in> A" "a < nextId ?d'" and c: "c \<in> set (childNodes (nodes ?d' a))"
  from c kids have an: "a \<noteq> nextId d" by auto
  with a(2) have a': "a < nextId d" by simp
  from c an have cin: "c \<in> set (childNodes (nodes d a))" by simp
  from region_child[OF r a(1) a' cin]
  have c3: "c \<in> A" "c < nextId d" "parentNode (nodes d c) = Some a" by simp_all
  then show "c \<in> A \<and> c < nextId ?d' \<and> parentNode (nodes ?d' c) = Some a" by simp
next
  fix a q
  assume a: "a \<in> A" "a < nextId ?d'" and q: "parentNode (nodes ?d' a) = Some q"
  show "q \<in> W"
  proof (cases "a = nextId d")
    case True
    with q par show ?thesis by simp
  next
    case False
    with a(2) q have "a < nextId d" "parentNode (nodes d a) = Some q" by simp_all
    with region_parent[OF r a(1)] show ?thesis by simp
  qed
next
  fix a assume "nextId ?d' \<le> a"
  then show "a \<in> A" using region_fresh[OF r] by simp
qed

lemma keeps_alloc:
  "region A W d \<Longrightarrow> keeps W d (d \<lparr> nodes := (nodes d)(nextId d := nd), nextId := Suc (nextId d) \<rparr>)"
  unfolding keeps_def using region_fresh[of A W d "nextId d"] region_sub[of A W d] by auto

declare cloneUpTo.simps [simp del] cloneAll.simps [simp del]

lemma cloneAll_region_step:
  assumes up: "\<And>d n par. region A W d \<Longrightarrow> (\<And>q. par = Some q \<Longrightarrow> q \<in> W)
                 \<Longrightarrow> cloned A W d par (cloneUpTo k d n par)"
  shows "region A W d \<Longrightarrow> c \<in> A \<Longrightarrow> c < nextId d \<Longrightarrow>
         region A W (cloneAll k d xs c) \<and> keeps W d (cloneAll k d xs c)
         \<and> parentNode (nodes (cloneAll k d xs c) c) = parentNode (nodes d c)
         \<and> (\<forall>a. a < nextId d \<longrightarrow> a \<noteq> c \<longrightarrow> nodes (cloneAll k d xs c) a = nodes d a)"
proof (induction xs arbitrary: d)
  case Nil
  then show ?case by (simp add: cloneAll.simps)
next
  case (Cons x xs)
  obtain d1 y where res: "cloneUpTo k d x (Some c) = (d1, y)" by (cases "cloneUpTo k d x (Some c)")
  have cW: "c \<in> W" using Cons.prems(1,2) region_sub by blast
  from up[OF Cons.prems(1), of "Some c" x] cW
  have cl: "region A W d1" "keeps W d d1" "y = nextId d" "nextId d < nextId d1"
    "parentNode (nodes d1 y) = Some c" "\<And>a. a < nextId d \<Longrightarrow> nodes d1 a = nodes d a"
    unfolding cloned_def res by auto
  define d2 where "d2 = updNode d1 c (\<lambda>z. z \<lparr> childNodes := childNodes (nodes d1 c) @ [y] \<rparr>)"
  have c1: "c < nextId d1" using Cons.prems(3) cl(4) by simp
  have yA: "y \<in> A" "y < nextId d1" using region_fresh[OF Cons.prems(1), of y] cl(3,4) by simp_all
  have "region A W d2"
    unfolding d2_def
  proof (rule region_set_children[OF cl(1) Cons.prems(2) c1])
    fix z assume "z \<in> set (childNodes (nodes d1 c) @ [y])"
    then have "z \<in> set (childNodes (nodes d1 c)) \<or> z = y" by auto
    then show "z \<in> A \<and> z < nextId d1 \<and> parentNode (nodes d1 z) = Some c"
    proof
      assume "z \<in> set (childNodes (nodes d1 c))"
      from region_child[OF cl(1) Cons.prems(2) c1 this] show ?thesis .
    next
      assume "z = y"
      with yA cl(5) show ?thesis by simp
    qed
  qed
  moreover have k2: "keeps W d1 d2" unfolding d2_def using cW by (rule keeps_updNode)
  moreover have c2: "c < nextId d2" using c1 by (simp add: d2_def)
  ultimately have rec: "region A W (cloneAll k d2 xs c)" "keeps W d2 (cloneAll k d2 xs c)"
    "parentNode (nodes (cloneAll k d2 xs c) c) = parentNode (nodes d2 c)"
    "\<And>a. a < nextId d2 \<Longrightarrow> a \<noteq> c \<Longrightarrow> nodes (cloneAll k d2 xs c) a = nodes d2 a"
    using Cons.IH[of d2] Cons.prems(2) by simp_all
  have step: "cloneAll k d (x # xs) c = cloneAll k d2 xs c"
    by (simp add: cloneAll.simps res d2_def updNode_children_const[where f = "\<lambda>xs. xs @ [y]"])
  have p2: "parentNode (nodes d2 c) = parentNode (nodes d c)"
    using cl(6)[OF Cons.prems(3)] by (simp add: d2_def)
  have old: "nodes (cloneAll k d2 xs c) a = nodes d a" if "a < nextId d" "a \<noteq> c" for a
  proof -
    have "a < nextId d2" using that(1) cl(4) by (simp add: d2_def)
    from rec(4)[OF this that(2)] have "nodes (cloneAll k d2 xs c) a = nodes d2 a" .
    also have "\<dots> = nodes d1 a" using that(2) by (simp add: d2_def)
    also have "\<dots> = nodes d a" using cl(6)[OF that(1)] .
    finally show ?thesis .
  qed
  from rec(1,3) p2 old keeps_trans[OF keeps_trans[OF cl(2) k2] rec(2)] show ?case
    unfolding step by simp
qed

lemma cloneUpTo_region:
  "region A W d \<Longrightarrow> (\<And>q. par = Some q \<Longrightarrow> q \<in> W) \<Longrightarrow> cloned A W d par (cloneUpTo k d n par)"
proof (induction k arbitrary: d n par)
  case 0
  let ?copy = "(nodes d n) \<lparr> childNodes := [], parentNode := par, indeterminate := False,
                   ended := False, paused := True, currentTime := 0 \<rparr>"
  have eq: "cloneUpTo 0 d n par = (d \<lparr> nodes := (nodes d)(nextId d := ?copy), nextId := Suc (nextId d) \<rparr>, nextId d)"
    by (simp add: cloneUpTo.simps Let_def)
  have "region A W (d \<lparr> nodes := (nodes d)(nextId d := ?copy), nextId := Suc (nextId d) \<rparr>)"
    by (rule region_alloc[OF "0.prems"(1)]) (use "0.prems"(2) in simp_all)
  with keeps_alloc[OF "0.prems"(1), of ?copy] show ?case
    unfolding eq cloned_def by simp
next
  case (Suc k)
  let ?copy = "(nodes d n) \<lparr> childNodes := [], parentNode := par, indeterminate := False,
                   ended := False, paused := True, currentTime := 0 \<rparr>"
  define d1 where "d1 = d \<lparr> nodes := (nodes d)(nextId d := ?copy), nextId := Suc (nextId d) \<rparr>"
  have eq: "cloneUpTo (Suc k) d n par = (cloneAll k d1 (childNodes (nodes d n)) (nextId d), nextId d)"
    by (simp add: cloneUpTo.simps Let_def d1_def)
  have r1: "region A W d1"
    unfolding d1_def by (rule region_alloc[OF Suc.prems(1)]) (use Suc.prems(2) in simp_all)
  have k1: "keeps W d d1" unfolding d1_def by (rule keeps_alloc[OF Suc.prems(1)])
  have cA: "nextId d \<in> A" using region_fresh[OF Suc.prems(1)] by simp
  have c1: "nextId d < nextId d1" by (simp add: d1_def)
  have up: "\<And>d n par. region A W d \<Longrightarrow> (\<And>q. par = Some q \<Longrightarrow> q \<in> W)
                 \<Longrightarrow> cloned A W d par (cloneUpTo k d n par)"
    using Suc.IH by blast
  from cloneAll_region_step[OF up r1 cA c1, of "childNodes (nodes d n)"]
  have all: "region A W (cloneAll k d1 (childNodes (nodes d n)) (nextId d))"
    "keeps W d1 (cloneAll k d1 (childNodes (nodes d n)) (nextId d))"
    "parentNode (nodes (cloneAll k d1 (childNodes (nodes d n)) (nextId d)) (nextId d))
       = parentNode (nodes d1 (nextId d))"
    "\<And>a. a < nextId d1 \<Longrightarrow> a \<noteq> nextId d \<Longrightarrow>
       nodes (cloneAll k d1 (childNodes (nodes d n)) (nextId d)) a = nodes d1 a"
    by simp_all
  have p1: "parentNode (nodes d1 (nextId d)) = par" by (simp add: d1_def)
  have old: "nodes (cloneAll k d1 (childNodes (nodes d n)) (nextId d)) a = nodes d a"
    if "a < nextId d" for a
  proof -
    have "a < nextId d1" "a \<noteq> nextId d" using that by (simp_all add: d1_def)
    from all(4)[OF this] that show ?thesis by (simp add: d1_def)
  qed
  have "nextId d < nextId (cloneAll k d1 (childNodes (nodes d n)) (nextId d))"
    using all(2) c1 unfolding keeps_def by simp
  with all(1,3) p1 old keeps_trans[OF k1 all(2)] show ?case
    unfolding eq cloned_def by simp
qed

lemma cloneNode_region:
  assumes "region A W d" "cloneNode d n = (d', c)"
  shows "region A W d'" "keeps W d d'" "c \<in> A" "c < nextId d'" "parentNode (nodes d' c) = None"
    "nextId d \<le> nextId d'"
proof -
  from cloneUpTo_region[OF assms(1), of None "nextId d" n] assms(2)
  have c: "region A W d'" "keeps W d d'" "c = nextId d" "nextId d < nextId d'"
    "parentNode (nodes d' c) = None"
    unfolding cloned_def cloneNode_def by auto
  then show "region A W d'" "keeps W d d'" "c < nextId d'" "parentNode (nodes d' c) = None"
    "nextId d \<le> nextId d'" by simp_all
  show "c \<in> A" using region_fresh[OF assms(1), of c] c(3) by simp
qed

lemma fold_unparent:
  "nodes (fold (\<lambda>c d'. updNode d' c (\<lambda>x. x \<lparr> parentNode := None \<rparr>)) cs d) x
     = (if x \<in> set cs then (nodes d x) \<lparr> parentNode := None \<rparr> else nodes d x)"
  "nextId (fold (\<lambda>c d'. updNode d' c (\<lambda>x. x \<lparr> parentNode := None \<rparr>)) cs d) = nextId d"
  by (induction cs arbitrary: d) auto

lemma region_unparent_children:
  assumes r: "region A W d" and t: "t \<in> A" "t < nextId d"
  defines "d2 \<equiv> updNode (fold (\<lambda>c d'. updNode d' c (\<lambda>x. x \<lparr> parentNode := None \<rparr>))
                           (childNodes (nodes d t)) d) t (\<lambda>x. x \<lparr> childNodes := [] \<rparr>)"
  shows "region A W d2" and "keeps W d d2" and "nextId d2 = nextId d"
    and "childNodes (nodes d2 t) = []"
proof -
  have kids: "childNodes (nodes d2 a) = (if a = t then [] else childNodes (nodes d a))" for a
    unfolding d2_def by (simp add: fold_unparent)
  have pars: "parentNode (nodes d2 a) =
      (if a \<in> set (childNodes (nodes d t)) then None else parentNode (nodes d a))" for a
    unfolding d2_def by (simp add: fold_unparent)
  show n2: "nextId d2 = nextId d" unfolding d2_def by (simp add: fold_unparent)
  show "childNodes (nodes d2 t) = []" unfolding kids by simp
  show "region A W d2"
  proof (rule regionI)
    show "A \<subseteq> W" using r by (rule region_sub)
  next
    fix a c
    assume a: "a \<in> A" "a < nextId d2" and c: "c \<in> set (childNodes (nodes d2 a))"
    have a': "a < nextId d" using a(2) n2 by simp
    from c have at: "a \<noteq> t" and cin: "c \<in> set (childNodes (nodes d a))"
      unfolding kids by (auto split: if_splits)
    from region_child[OF r a(1) a' cin]
    have c3: "c \<in> A" "c < nextId d" "parentNode (nodes d c) = Some a" by simp_all
    have "c \<notin> set (childNodes (nodes d t))"
    proof
      assume "c \<in> set (childNodes (nodes d t))"
      from region_child[OF r t this] c3(3) at show False by simp
    qed
    with c3 n2 show "c \<in> A \<and> c < nextId d2 \<and> parentNode (nodes d2 c) = Some a"
      unfolding pars by simp
  next
    fix a q
    assume a: "a \<in> A" "a < nextId d2" and q: "parentNode (nodes d2 a) = Some q"
    from q have "parentNode (nodes d a) = Some q" unfolding pars by (simp split: if_splits)
    with region_parent[OF r a(1)] a(2) n2 show "q \<in> W" by simp
  next
    fix a assume "nextId d2 \<le> a"
    then show "a \<in> A" using region_fresh[OF r] n2 by simp
  qed
  have "nodes d2 a = nodes d a" if "a \<notin> W" for a
  proof -
    have "a \<noteq> t" using that t(1) region_sub[OF r] by blast
    moreover have "a \<notin> set (childNodes (nodes d t))"
      using region_child[OF r t, of a] that region_sub[OF r] by blast
    ultimately show ?thesis unfolding d2_def by (simp add: fold_unparent)
  qed
  then show "keeps W d d2" unfolding keeps_def using n2 by simp
qed

lemma region_setTextContent:
  assumes r: "region A W d" and t: "t \<in> A" "t < nextId d"
  shows "region A W (setTextContent d t s) \<and> keeps W d (setTextContent d t s)"
proof -
  define d2 where "d2 = updNode (fold (\<lambda>c d'. updNode d' c (\<lambda>x. x \<lparr> parentNode := None \<rparr>))
                           (childNodes (nodes d t)) d) t (\<lambda>x. x \<lparr> childNodes := [] \<rparr>)"
  note u = region_unparent_children[OF r t, folded d2_def]
  show ?thesis
  proof (cases "s = []")
    case True
    then have "setTextContent d t s = d2" by (simp add: setTextContent_def Let_def d2_def)
    with u show ?thesis by simp
  next
    case False
    define tnode where "tnode = (nodes d2 (nextId d2)) \<lparr> nodeType := 3, localName := [], attributes := [],
                          childNodes := [], parentNode := Some t, nodeValue := Some s \<rparr>"
    define d3 where "d3 = d2 \<lparr> nodes := (nodes d2)(nextId d2 := tnode), nextId := Suc (nextId d2) \<rparr>"
    define d4 where "d4 = updNode d3 t (\<lambda>x. x \<lparr> childNodes := [nextId d2] \<rparr>)"
    have eq: "setTextContent d t s = d4"
      using False by (simp add: setTextContent_def Let_def d2_def d3_def d4_def tnode_def)
    have tW: "t \<in> W" using t(1) region_sub[OF r] by blast
    have r3: "region A W d3"
      unfolding d3_def by (rule region_alloc[OF u(1)]) (use tW in \<open>simp_all add: tnode_def\<close>)
    have k3: "keeps W d2 d3" unfolding d3_def by (rule keeps_alloc[OF u(1)])
    have t3: "t < nextId d3" using t(2) u(3) by (simp add: d3_def)
    have r4: "region A W d4"
      unfolding d4_def
    proof (rule region_set_children[OF r3 t(1) t3])
      fix c assume "c \<in> set [nextId d2]"
      then have c: "c = nextId d2" by simp
      have "nextId d2 \<in> A" using region_fresh[OF u(1)] by simp
      then show "c \<in> A \<and> c < nextId d3 \<and> parentNode (nodes d3 c) = Some t"
        unfolding c by (simp add: d3_def tnode_def)
    qed
    have k4: "keeps W d3 d4" unfolding d4_def using tW by (rule keeps_updNode)
    from r4 keeps_trans[OF keeps_trans[OF u(2) k3] k4] show ?thesis unfolding eq by simp
  qed
qed

lemma region_setProp:
  assumes r: "region A W d" and n: "n \<in> A" "n < nextId d"
  shows "region A W (setProp d n p v) \<and> keeps W d (setProp d n p v)"
proof -
  have nW: "n \<in> W" using n(1) region_sub[OF r] by blast
  have data: "region A W (updNode d n f) \<and> keeps W d (updNode d n f)"
    if "\<And>x. childNodes (f x) = childNodes x" "\<And>x. parentNode (f x) = parentNode x" for f
    using region_updNode_data[OF r that] keeps_updNode[OF nW] by simp
  show ?thesis
  proof (cases p)
    case Checked
    then show ?thesis using r data[of "\<lambda>x. x \<lparr> checked := b \<rparr>" for b]
      by (cases v) (simp_all add: setProp_def)
  next
    case Disabled
    then show ?thesis using r data[of "\<lambda>x. x \<lparr> disabled := b \<rparr>" for b]
      by (cases v) (simp_all add: setProp_def)
  next
    case Indeterminate
    then show ?thesis using r data[of "\<lambda>x. x \<lparr> indeterminate := b \<rparr>" for b]
      by (cases v) (simp_all add: setProp_def)
  next
    case Value
    then show ?thesis using r data[of "\<lambda>x. x \<lparr> curValue := b \<rparr>" for b]
      by (cases v) (simp_all add: setProp_def)
  next
    case Selected
    then show ?thesis using r data[of "\<lambda>x. x \<lparr> selected := b \<rparr>" for b]
      by (cases v) (simp_all add: setProp_def)
  next
    case TextContent
    then show ?thesis using r region_setTextContent[OF r n]
      by (cases v) (simp_all add: setProp_def)
  next
    case NodeValue
    then show ?thesis using r data[of "\<lambda>x. x \<lparr> nodeValue := b \<rparr>" for b]
      by (cases v) (simp_all add: setProp_def)
  qed
qed

lemma safe_refl: "region A W d \<Longrightarrow> safe A W d d"
  by (simp add: safe_def)

lemma safe_trans: "safe A W d d' \<Longrightarrow> safe A W d' d'' \<Longrightarrow> safe A W d d''"
  unfolding safe_def using keeps_trans by blast

lemma safe_region: "safe A W d d' \<Longrightarrow> region A W d'"
  by (simp add: safe_def)

lemma safe_live: "safe A W d d' \<Longrightarrow> m < nextId d \<Longrightarrow> m < nextId d'"
  by (simp add: safe_def keeps_def)

lemma safeI: "region A W d' \<Longrightarrow> keeps W d d' \<Longrightarrow> safe A W d d'"
  by (simp add: safe_def)

lemma inside_child:
  "region A W d \<Longrightarrow> a \<in> A \<Longrightarrow> a < nextId d \<Longrightarrow> c \<in> set (childNodes (nodes d a)) \<Longrightarrow> inside A d c"
  unfolding inside_def using region_child[of A W d a c] by simp

lemma inside_orphan: "m \<in> A \<Longrightarrow> m < nextId d \<Longrightarrow> parentNode (nodes d m) = None \<Longrightarrow> inside A d m"
  by (simp add: inside_def)

lemma updateProperty_doc_cases:
  "doc (updateProperty M w n p v) = doc w \<or> doc (updateProperty M w n p v) = setProp (doc w) n p v"
  by (auto simp: updateProperty_def askBefore_def Let_def split: option.splits)

lemma replaceNode_doc_cases:
  "doc (replaceNode M w n new) = doc w \<or> doc (replaceNode M w n new) = hostReplaceWith (doc w) n new"
  by (auto simp: replaceNode_def askBefore_def Let_def split: option.splits)

lemma appendChild_doc_cases:
  "doc (appendChild M w n new) = doc w \<or> doc (appendChild M w n new) = hostAppendChild (doc w) n new"
  by (auto simp: appendChild_def askBefore_def Let_def split: option.splits)

lemma removeNode_doc_cases:
  "doc (removeNode M w n) = doc w \<or> doc (removeNode M w n) = detach (doc w) n"
  by (auto simp: removeNode_def hostRemove_def askBefore_def Let_def split: option.splits)

lemma removeExcessStep_doc_cases:
  "doc (removeExcessStep M w element ref i) = doc w
     \<or> (\<exists>name. doc (removeExcessStep M w element ref i) = removeAttribute (doc w) element name)"
  by (auto simp: removeExcessStep_def askBefore_def Let_def split: option.splits prod.splits)

lemma copyAttributeStep_doc_cases:
  "doc (copyAttributeStep M w element ref i) = doc w
     \<or> (\<exists>name val. doc (copyAttributeStep M w element ref i) = setAttribute (doc w) element name val)"
  by (auto simp: copyAttributeStep_def askBefore_def Let_def split: option.splits prod.splits)

lemma updateProperty_safe:
  assumes "region A W (doc w)" "n \<in> A" "n < nextId (doc w)"
  shows "safe A W (doc w) (doc (updateProperty M w n p v))"
  using updateProperty_doc_cases[of M w n p v] region_setProp[OF assms, of p v] assms(1)
  by (auto simp: safe_def)

lemma replaceNode_safe:
  assumes "region A W (doc w)" "n \<in> A" "n < nextId (doc w)"
    "new \<in> A" "new < nextId (doc w)" "parentNode (nodes (doc w) new) = None"
  shows "safe A W (doc w) (doc (replaceNode M w n new))"
  using replaceNode_doc_cases[of M w n new] region_hostReplaceWith(1,2)[OF assms] assms(1)
  by (auto simp: safe_def)

lemma appendChild_safe:
  assumes r: "region A W (doc w)" and p: "p \<in> A" "p < nextId (doc w)" and m: "inside A (doc w) m"
  shows "safe A W (doc w) (doc (appendChild M w p m))"
proof -
  have m': "m \<in> A" "m < nextId (doc w)"
    and q: "\<And>q. parentNode (nodes (doc w) m) = Some q \<Longrightarrow> q \<in> A \<and> q < nextId (doc w)"
    using m by (simp_all add: inside_def)
  have "region A W (hostAppendChild (doc w) p m)" "keeps W (doc w) (hostAppendChild (doc w) p m)"
    by (rule region_hostAppendChild[OF r p m' q], assumption)+
  then show ?thesis using appendChild_doc_cases[of M w p m] r by (auto simp: safe_def)
qed

lemma removeNode_safe:
  assumes r: "region A W (doc w)" and m: "inside A (doc w) m"
  shows "safe A W (doc w) (doc (removeNode M w m))"
proof -
  have m': "m \<in> A" "m < nextId (doc w)"
    and q: "\<And>q. parentNode (nodes (doc w) m) = Some q \<Longrightarrow> q \<in> A \<and> q < nextId (doc w)"
    using m by (simp_all add: inside_def)
  have "region A W (detach (doc w) m)" "keeps W (doc w) (detach (doc w) m)"
    by (rule region_detach[OF r m' q], assumption)+
  then show ?thesis using removeNode_doc_cases[of M w m] r by (auto simp: safe_def)
qed

lemma removeExcessStep_safe:
  assumes r: "region A W (doc w)" and e: "element \<in> A"
  shows "safe A W (doc w) (doc (removeExcessStep M w element ref i))"
proof -
  have eW: "element \<in> W" using e region_sub[OF r] by blast
  have "safe A W (doc w) (removeAttribute (doc w) element name)" for name
    unfolding removeAttribute_def
    by (rule safeI[OF region_updNode_data[OF r] keeps_updNode[OF eW]]) simp_all
  then show ?thesis using removeExcessStep_doc_cases[of M w element ref i] safe_refl[OF r] by auto
qed

lemma copyAttributeStep_safe:
  assumes r: "region A W (doc w)" and e: "element \<in> A"
  shows "safe A W (doc w) (doc (copyAttributeStep M w element ref i))"
proof -
  have eW: "element \<in> W" using e region_sub[OF r] by blast
  have "safe A W (doc w) (setAttribute (doc w) element name val)" for name val
    unfolding setAttribute_def
    by (rule safeI[OF region_updNode_data[OF r] keeps_updNode[OF eW]]) simp_all
  then show ?thesis using copyAttributeStep_doc_cases[of M w element ref i] safe_refl[OF r] by auto
qed

lemma removeExcessAttributes_safe:
  "region A W (doc w) \<Longrightarrow> element \<in> A \<Longrightarrow>
   safe A W (doc w) (doc (removeExcessAttributes M w element ref i))"
proof (induction M w element ref i rule: removeExcessAttributes.induct)
  case (1 M w element ref i)
  show ?case
  proof (cases "i < length (attributes (nodes (doc w) element))")
    case True
    note s1 = removeExcessStep_safe[OF 1(2,3), of M ref i]
    have eq: "removeExcessAttributes M w element ref i
        = removeExcessAttributes M (removeExcessStep M w element ref i) element ref (Suc i)"
      using True by (subst removeExcessAttributes.simps) (simp del: removeExcessAttributes.simps)
    show ?thesis unfolding eq
      by (rule safe_trans[OF s1 "1.IH"[OF True safe_region[OF s1] 1(3)]])
  next
    case False
    then have eq: "removeExcessAttributes M w element ref i = w"
      by (subst removeExcessAttributes.simps) (simp del: removeExcessAttributes.simps)
    show ?thesis unfolding eq by (rule safe_refl[OF 1(2)])
  qed
qed

lemma copyAttributes_safe:
  "region A W (doc w) \<Longrightarrow> element \<in> A \<Longrightarrow>
   safe A W (doc w) (doc (copyAttributes M w element ref i))"
proof (induction M w element ref i rule: copyAttributes.induct)
  case (1 M w element ref i)
  show ?case
  proof (cases "i < length (attributes (nodes (doc w) ref))")
    case True
    note s1 = copyAttributeStep_safe[OF 1(2,3), of M ref i]
    have eq: "copyAttributes M w element ref i
        = copyAttributes M (copyAttributeStep M w element ref i) element ref (Suc i)"
      using True by (subst copyAttributes.simps) (simp del: copyAttributes.simps)
    show ?thesis unfolding eq
      by (rule safe_trans[OF s1 "1.IH"[OF True safe_region[OF s1] 1(3)]])
  next
    case False
    then have eq: "copyAttributes M w element ref i = w"
      by (subst copyAttributes.simps) (simp del: copyAttributes.simps)
    show ?thesis unfolding eq by (rule safe_refl[OF 1(2)])
  qed
qed

lemma syncInput_safe:
  assumes r: "region A W (doc w)" and e: "element \<in> A" "element < nextId (doc w)"
  shows "safe A W (doc w) (doc (syncInput M w element ref))"
proof -
  define w1 where "w1 = updateProperty M w element Checked (PBool (checked (nodes (doc w) ref)))"
  define w2 where "w2 = updateProperty M w1 element Disabled (PBool (disabled (nodes (doc w1) ref)))"
  define w3 where "w3 = updateProperty M w2 element Indeterminate
                 (PBool (indeterminate (nodes (doc w2) ref)))"
  define w4 where "w4 = updateProperty M w3 element Value (PStr (curValue (nodes (doc w3) ref)))"
  have s1: "safe A W (doc w) (doc w1)" unfolding w1_def by (rule updateProperty_safe[OF r e])
  have s2: "safe A W (doc w1) (doc w2)" unfolding w2_def
    by (rule updateProperty_safe[OF safe_region[OF s1] e(1) safe_live[OF s1 e(2)]])
  note s12 = safe_trans[OF s1 s2]
  have s3: "safe A W (doc w2) (doc w3)" unfolding w3_def
    by (rule updateProperty_safe[OF safe_region[OF s12] e(1) safe_live[OF s12 e(2)]])
  note s13 = safe_trans[OF s12 s3]
  have s4: "safe A W (doc w3) (doc w4)" unfolding w4_def
    by (rule updateProperty_safe[OF safe_region[OF s13] e(1) safe_live[OF s13 e(2)]])
  note s14 = safe_trans[OF s13 s4]
  have "syncInput M w element ref = w3 \<or> syncInput M w element ref = w4"
    unfolding syncInput_def Let_def w1_def[symmetric] w2_def[symmetric] w3_def[symmetric]
      w4_def[symmetric] by simp
  then show ?thesis using s13 s14 by auto
qed

lemma firstElementChild_child:
  "firstElementChild d n = Some c \<Longrightarrow> c \<in> set (childNodes (nodes d n))"
proof -
  assume "firstElementChild d n = Some c"
  then have "c \<in> set (children d n)"
    by (auto simp: firstElementChild_def split: list.splits)
  then show ?thesis by (simp add: children_def)
qed

lemma syncTextArea_safe:
  assumes r: "region A W (doc w)" and e: "element \<in> A" "element < nextId (doc w)"
  shows "safe A W (doc w) (doc (syncTextArea M w element ref))"
proof -
  define w1 where "w1 = updateProperty M w element Value (PStr (curValue (nodes (doc w) ref)))"
  have s1: "safe A W (doc w) (doc w1)" unfolding w1_def by (rule updateProperty_safe[OF r e])
  note r1 = safe_region[OF s1] and l1 = safe_live[OF s1 e(2)]
  show ?thesis
  proof (cases "firstElementChild (doc w1) element")
    case None
    then have "syncTextArea M w element ref = w1"
      unfolding syncTextArea_def Let_def w1_def[symmetric] by simp
    then show ?thesis using s1 by simp
  next
    case (Some t)
    from region_child[OF r1 e(1) l1 firstElementChild_child[OF Some]]
    have t: "t \<in> A" "t < nextId (doc w1)" by simp_all
    have "syncTextArea M w element ref
          = updateProperty M w1 t TextContent (PStr (curValue (nodes (doc w1) ref)))"
      unfolding syncTextArea_def Let_def w1_def[symmetric] using Some by simp
    then show ?thesis using safe_trans[OF s1 updateProperty_safe[OF r1 t]] by simp
  qed
qed

lemma morphAttributes_safe:
  assumes r: "region A W (doc w)" and e: "element \<in> A" "element < nextId (doc w)"
  shows "safe A W (doc w) (doc (morphAttributes M w element ref))"
proof -
  define w1 where "w1 = removeExcessAttributes M w element ref 0"
  define w2 where "w2 = copyAttributes M w1 element ref 0"
  have s1: "safe A W (doc w) (doc w1)" unfolding w1_def
    by (rule removeExcessAttributes_safe[OF r e(1)])
  have s2: "safe A W (doc w) (doc w2)" unfolding w2_def
    by (rule safe_trans[OF s1 copyAttributes_safe[OF safe_region[OF s1] e(1)]])
  note r2 = safe_region[OF s2] and l2 = safe_live[OF s2 e(2)]
  have "morphAttributes M w element ref = w2
      \<or> morphAttributes M w element ref = syncInput M w2 element ref
      \<or> morphAttributes M w element ref = syncTextArea M w2 element ref
      \<or> morphAttributes M w element ref
          = updateProperty M w2 element Selected (PBool (selected (nodes (doc w2) ref)))"
    unfolding morphAttributes_def Let_def w1_def[symmetric] w2_def[symmetric] by simp
  then show ?thesis
    using s2 safe_trans[OF s2 syncInput_safe[OF r2 e(1) l2]]
      safe_trans[OF s2 syncTextArea_safe[OF r2 e(1) l2]]
      safe_trans[OF s2 updateProperty_safe[OF r2 e(1) l2]]
    by auto
qed

lemma detach_parent:
  "parentNode (nodes (detach d m) x) = (if x = m then None else parentNode (nodes d x))"
  unfolding detach_alt by (simp split: option.splits)

lemma detach_nextId: "nextId (detach d m) = nextId d"
  unfolding detach_alt by (simp split: option.splits)

lemma hostInsertBefore_parent:
  assumes "hostInsertBefore d p m r = Inr d'"
  shows "parentNode (nodes d' x) = (if x = m then Some p else parentNode (nodes d x))"
    and "nextId d' = nextId d"
proof -
  from assms have d': "d' = updNode (updNode (detach d m) p
         (\<lambda>x. x \<lparr> childNodes := insertInto m (if r = Some m then nextSibling d m else r) (childNodes x) \<rparr>))
         m (\<lambda>x. x \<lparr> parentNode := Some p \<rparr>)"
    by (simp add: hostInsertBefore_def Let_def split: if_splits)
  show "parentNode (nodes d' x) = (if x = m then Some p else parentNode (nodes d x))"
    unfolding d' by (simp add: detach_parent)
  show "nextId d' = nextId d" unfolding d' by (simp add: detach_nextId)
qed

lemma inside_hostInsertBefore:
  assumes h: "hostInsertBefore d p m r = Inr d'" and p: "p \<in> A" "p < nextId d"
    and x: "inside A d x"
  shows "inside A d' x"
  using x p unfolding inside_def hostInsertBefore_parent[OF h] by simp

lemma previousSibling_inside:
  assumes r: "region A W d" and n: "inside A d n" and p: "previousSibling d n = Some p"
  shows "inside A d p"
proof -
  from p obtain q where q: "parentNode (nodes d n) = Some q"
    by (cases "parentNode (nodes d n)") (simp_all add: previousSibling_def)
  from n q have qA: "q \<in> A" "q < nextId d" by (simp_all add: inside_def)
  define earlier where "earlier = takeWhile (\<lambda>x. x \<noteq> n) (childNodes (nodes d q))"
  from p q have "earlier \<noteq> []" "p = last earlier"
    by (auto simp: previousSibling_def Let_def earlier_def split: if_splits)
  then have "p \<in> set earlier" by simp
  then have "p \<in> set (childNodes (nodes d q))" unfolding earlier_def by (rule set_takeWhileD[THEN conjunct1])
  then show ?thesis by (rule inside_child[OF r qA])
qed

lemma nextSibling_inside:
  assumes r: "region A W d" and n: "inside A d n" and p: "nextSibling d n = Some p"
  shows "inside A d p"
proof -
  from p obtain q where q: "parentNode (nodes d n) = Some q"
    by (cases "parentNode (nodes d n)") (simp_all add: nextSibling_def)
  from n q have qA: "q \<in> A" "q < nextId d" by (simp_all add: inside_def)
  from p q obtain a rest where "dropWhile (\<lambda>x. x \<noteq> n) (childNodes (nodes d q)) = a # p # rest"
    by (auto simp: nextSibling_def split: list.splits)
  then have "p \<in> set (dropWhile (\<lambda>x. x \<noteq> n) (childNodes (nodes d q)))" by simp
  then have "p \<in> set (childNodes (nodes d q))" by (rule set_dropWhileD)
  then show ?thesis by (rule inside_child[OF r qA])
qed

lemma lastChild_child: "lastChild d n = Some c \<Longrightarrow> c \<in> set (childNodes (nodes d n))"
  by (cases "childNodes (nodes d n)") (auto simp: lastChild_def)

lemma insertBeforeLoop_safe:
  "region A W (doc w) \<Longrightarrow> parent \<in> A \<Longrightarrow> parent < nextId (doc w) \<Longrightarrow> inside A (doc w) n \<Longrightarrow>
   (\<And>p. prev = Some p \<Longrightarrow> inside A (doc w) p) \<Longrightarrow>
   insertBeforeLoop k M w parent n ip s prev = Inr (b, w') \<Longrightarrow>
   safe A W (doc w) (doc w') \<and> inside A (doc w') n \<and> nextId (doc w') = nextId (doc w)"
proof (induction k arbitrary: w prev)
  case 0
  then show ?case by simp
next
  case (Suc k)
  note r = Suc.prems(1) and par = Suc.prems(2,3) and n = Suc.prems(4) and res = Suc.prems(6)
  show ?case
  proof (cases prev)
    case None
    with res have "w' = w" by simp
    then show ?thesis using safe_refl[OF r] n by simp
  next
    case (Some pn)
    note pn = Suc.prems(5)[OF Some]
    show ?thesis
    proof (cases "get0 (sensivityMap M) pn < s")
      case False
      with res Some have "w' = w" by simp
      then show ?thesis using safe_refl[OF r] n by simp
    next
      case True
      obtain d' where h: "hostInsertBefore (doc w) parent pn (nextSibling (doc w) n) = Inr d'"
        using res Some True
        by (cases "hostInsertBefore (doc w) parent pn (nextSibling (doc w) n)") simp_all
      define w1 where "w1 = emit (HostInsertBefore parent pn (nextSibling (doc w) n)) (w \<lparr> doc := d' \<rparr>)"
      have dw1: "doc w1 = d'" by (simp add: w1_def)
      have res': "(if pn = ip then Inr (True, w1)
                   else insertBeforeLoop k M w1 parent n ip s (previousSibling (doc w1) n)) = Inr (b, w')"
        using res Some True h by (auto simp: w1_def Let_def split: if_splits)
      have pn': "pn \<in> A" "pn < nextId (doc w)"
        and q: "\<And>q. parentNode (nodes (doc w) pn) = Some q \<Longrightarrow> q \<in> A \<and> q < nextId (doc w)"
        using pn by (simp_all add: inside_def)
      note hr = region_hostInsertBefore[OF r par pn' q h]
      have s1: "safe A W (doc w) (doc w1)" unfolding dw1 by (rule safeI[OF hr(1,2)])
      have n1: "inside A (doc w1) n" unfolding dw1 by (rule inside_hostInsertBefore[OF h par n])
      have id1: "nextId (doc w1) = nextId (doc w)" unfolding dw1 by (rule hr(3))
      show ?thesis
      proof (cases "pn = ip")
        case True
        with res' have "w' = w1" by simp
        then show ?thesis using s1 n1 id1 by simp
      next
        case False
        with res' have rec: "insertBeforeLoop k M w1 parent n ip s (previousSibling (doc w1) n) = Inr (b, w')"
          by simp
        have "safe A W (doc w1) (doc w') \<and> inside A (doc w') n \<and> nextId (doc w') = nextId (doc w1)"
        proof (rule Suc.IH[OF safe_region[OF s1] par(1) _ n1 _ rec])
          show "parent < nextId (doc w1)" using par(2) id1 by simp
        next
          fix p assume "previousSibling (doc w1) n = Some p"
          then show "inside A (doc w1) p" by (rule previousSibling_inside[OF safe_region[OF s1] n1])
        qed
        then show ?thesis using safe_trans[OF s1] id1 by auto
      qed
    qed
  qed
qed

lemma insertBefore_safe:
  assumes r: "region A W (doc w)" and par: "parent \<in> A" "parent < nextId (doc w)"
    and n: "inside A (doc w) n" and res: "insertBefore k M w parent n ip = Inr w'"
  shows "safe A W (doc w) (doc w')"
proof (cases "n = ip")
  case True
  with res have "w' = w" by (simp add: insertBefore_def)
  then show ?thesis using safe_refl[OF r] by simp
next
  case False
  define scan where "scan = (if isElement (doc w) n \<and> 0 < get0 (sensivityMap M) n
           then insertBeforeLoop k M w parent n ip (get0 (sensivityMap M) n)
                  (previousSibling (doc w) n)
           else Inr (False, w))"
  obtain b w1 where sc: "scan = Inr (b, w1)"
    using res False unfolding insertBefore_def scan_def[symmetric]
    by (cases scan) auto
  have s1: "safe A W (doc w) (doc w1) \<and> inside A (doc w1) n \<and> nextId (doc w1) = nextId (doc w)"
  proof (cases "isElement (doc w) n \<and> 0 < get0 (sensivityMap M) n")
    case True
    with sc have l: "insertBeforeLoop k M w parent n ip (get0 (sensivityMap M) n)
                  (previousSibling (doc w) n) = Inr (b, w1)" by (simp add: scan_def)
    show ?thesis
      by (rule insertBeforeLoop_safe[OF r par n _ l]) (rule previousSibling_inside[OF r n])
  next
    case False
    with sc have "w1 = w" by (simp add: scan_def)
    then show ?thesis using safe_refl[OF r] n by simp
  qed
  have fin: "(if b then Inr w1
              else andThen (hostInsertBefore (doc w1) parent n (Some ip))
                    (\<lambda>d'. Inr (emit (HostInsertBefore parent n (Some ip)) (w1 \<lparr> doc := d' \<rparr>)))) = Inr w'"
    using res False sc unfolding insertBefore_def scan_def[symmetric] by simp
  show ?thesis
  proof (cases b)
    case True
    with fin have "w' = w1" by simp
    then show ?thesis using s1 by simp
  next
    case False
    obtain d' where h: "hostInsertBefore (doc w1) parent n (Some ip) = Inr d'"
      using fin False by (cases "hostInsertBefore (doc w1) parent n (Some ip)") simp_all
    with fin False have w': "doc w' = d'" by auto
    have n': "n \<in> A" "n < nextId (doc w1)"
      and q: "\<And>q. parentNode (nodes (doc w1) n) = Some q \<Longrightarrow> q \<in> A \<and> q < nextId (doc w1)"
      using s1 by (simp_all add: inside_def)
    have par1: "parent < nextId (doc w1)" using par(2) s1 by simp
    note hr = region_hostInsertBefore[OF safe_region[OF s1[THEN conjunct1]] par(1) par1 n' q h]
    show ?thesis unfolding w' by (rule safe_trans[OF s1[THEN conjunct1] safeI[OF hr(1,2)]])
  qed
qed

lemma findMatch_inside:
  "region A W d \<Longrightarrow> (\<And>c. cur = Some c \<Longrightarrow> inside A d c) \<Longrightarrow> (\<And>t. tag = Some t \<Longrightarrow> inside A d t) \<Longrightarrow>
   findMatch k M d ref cur tag = Inr r \<Longrightarrow> r = Matched m \<or> r = Exhausted (Some m) \<Longrightarrow> inside A d m"
proof (induction k arbitrary: cur tag)
  case 0
  then show ?case by simp
next
  case (Suc k)
  note r = Suc.prems(1) and res = Suc.prems(4) and m = Suc.prems(5)
  show ?case
  proof (cases cur)
    case None
    with res have "r = Exhausted tag" by simp
    with m have "tag = Some m" by auto
    then show ?thesis by (rule Suc.prems(3))
  next
    case (Some c)
    note c = Suc.prems(2)[OF Some]
    from res Some have "r = Matched c
        \<or> (\<exists>tag'. (tag' = tag \<or> tag' = Some c) \<and> findMatch k M d ref (nextSibling d c) tag' = Inr r)"
      by (auto simp: Let_def split: if_splits)
    then show ?thesis
    proof
      assume "r = Matched c"
      with m c show ?thesis by auto
    next
      assume "\<exists>tag'. (tag' = tag \<or> tag' = Some c) \<and> findMatch k M d ref (nextSibling d c) tag' = Inr r"
      then obtain tag' where t: "tag' = tag \<or> tag' = Some c"
        and rec: "findMatch k M d ref (nextSibling d c) tag' = Inr r" by blast
      show ?thesis
      proof (rule Suc.IH[OF r _ _ rec m])
        fix x assume "nextSibling d c = Some x"
        then show "inside A d x" by (rule nextSibling_inside[OF r c])
      next
        fix x assume "tag' = Some x"
        with t c Suc.prems(3) show "inside A d x" by auto
      qed
    qed
  qed
qed

lemma removeExcessChildren_safe:
  "region A W (doc w) \<Longrightarrow> element \<in> A \<Longrightarrow> element < nextId (doc w) \<Longrightarrow>
   removeExcessChildren k M w element ref = Inr w' \<Longrightarrow> safe A W (doc w) (doc w')"
proof (induction k arbitrary: w)
  case 0
  then show ?case by simp
next
  case (Suc k)
  note r = Suc.prems(1) and e = Suc.prems(2,3) and res = Suc.prems(4)
  show ?case
  proof (cases "length (childNodes (nodes (doc w) element)) > length (childNodes (nodes (doc w) ref))")
    case False
    with res have "w' = w" by simp
    then show ?thesis using safe_refl[OF r] by simp
  next
    case True
    show ?thesis
    proof (cases "lastChild (doc w) element")
      case None
      with res True have "removeExcessChildren k M w element ref = Inr w'" by simp
      then show ?thesis by (rule Suc.IH[OF r e])
    next
      case (Some child)
      with res True have rec: "removeExcessChildren k M (removeNode M w child) element ref = Inr w'"
        by simp
      have c: "inside A (doc w) child"
        by (rule inside_child[OF r e lastChild_child[OF Some]])
      note s1 = removeNode_safe[OF r c, of M]
      show ?thesis
        by (rule safe_trans[OF s1 Suc.IH[OF safe_region[OF s1] e(1) safe_live[OF s1 e(2)] rec]])
    qed
  qed
qed

lemma morphHeadStep_safe:
  assumes r: "region A W (doc (fst s))" and n: "n \<in> A" "n < nextId (doc (fst s))"
    and i: "i < length (children (doc (fst s)) n)"
  shows "safe A W (doc (fst s)) (doc (fst (morphHeadStep M s n i)))"
proof -
  define child where "child = children (doc (fst s)) n ! i"
  have "child \<in> set (children (doc (fst s)) n)" unfolding child_def using i by simp
  then have "child \<in> set (childNodes (nodes (doc (fst s)) n))" by (simp add: children_def)
  then have c: "inside A (doc (fst s)) child" by (rule inside_child[OF r n])
  have "fst (morphHeadStep M s n i) = fst s \<or> fst (morphHeadStep M s n i) = removeNode M (fst s) child"
    by (simp add: morphHeadStep_def Let_def child_def split: option.splits)
  then show ?thesis using safe_refl[OF r] removeNode_safe[OF r c, of M] by auto
qed

lemma morphHeadLoop_safe:
  "region A W (doc (fst s)) \<Longrightarrow> n \<in> A \<Longrightarrow> n < nextId (doc (fst s)) \<Longrightarrow>
   safe A W (doc (fst s)) (doc (fst (morphHeadLoop M s n i)))"
proof (induction M s n i rule: morphHeadLoop.induct)
  case (1 M s n i)
  show ?case
  proof (cases "i < length (children (doc (fst s)) n)")
    case True
    note s1 = morphHeadStep_safe[OF 1(2,3,4) True, of M]
    have eq: "morphHeadLoop M s n i = morphHeadLoop M (morphHeadStep M s n i) n (Suc i)"
      using True by (subst morphHeadLoop.simps) (simp del: morphHeadLoop.simps)
    show ?thesis unfolding eq
      by (rule safe_trans[OF s1 "1.IH"[OF True safe_region[OF s1] 1(3) safe_live[OF s1 1(4)]]])
  next
    case False
    then have eq: "morphHeadLoop M s n i = s"
      by (subst morphHeadLoop.simps) (simp del: morphHeadLoop.simps)
    show ?thesis unfolding eq by (rule safe_refl[OF 1(2)])
  qed
qed

lemma appendClone_safe:
  assumes r: "region A W (doc w)" and n: "n \<in> A" "n < nextId (doc w)"
    and c: "cloneNode (doc w) x = (d', c)"
  shows "safe A W (doc w) (doc (appendChild M (w \<lparr> doc := d' \<rparr>) n c))"
proof -
  note cr = cloneNode_region[OF r c]
  have n': "n < nextId d'" using n(2) cr(6) by simp
  have "safe A W (doc (w \<lparr> doc := d' \<rparr>)) (doc (appendChild M (w \<lparr> doc := d' \<rparr>) n c))"
    by (rule appendChild_safe) (use cr n n' in \<open>simp_all add: inside_orphan\<close>)
  then show ?thesis using safe_trans[OF safeI[OF cr(1,2)]] by simp
qed

lemma appendClones_safe:
  "region A W (doc w) \<Longrightarrow> n \<in> A \<Longrightarrow> n < nextId (doc w) \<Longrightarrow>
   safe A W (doc w)
     (doc (fold (\<lambda>refChild w'. let (d', c) = cloneNode (doc w') refChild
                                in appendChild M (w' \<lparr> doc := d' \<rparr>) n c) xs w))"
proof (induction xs arbitrary: w)
  case Nil
  then show ?case by (simp add: safe_refl)
next
  case (Cons x xs)
  obtain d' c where c: "cloneNode (doc w) x = (d', c)" by (cases "cloneNode (doc w) x")
  note s1 = appendClone_safe[OF Cons.prems c, of M]
  from Cons.IH[OF safe_region[OF s1] Cons.prems(2) safe_live[OF s1 Cons.prems(3)]] s1 c
  show ?case by (auto intro: safe_trans)
qed

lemma morphHead_safe:
  assumes r: "region A W (doc w)" and n: "n \<in> A" "n < nextId (doc w)"
  shows "safe A W (doc w) (doc (morphHead M w n reference))"
proof -
  define m0 where "m0 = fold (\<lambda>child m. mapSet (outerHTML (doc w) child) child m)
              (children (doc w) reference) []"
  define s where "s = morphHeadLoop M (w, m0) n 0"
  have s1: "safe A W (doc w) (doc (fst s))"
    unfolding s_def using morphHeadLoop_safe[of A W "(w, m0)" n M 0] r n by simp
  have "safe A W (doc (fst s))
     (doc (fold (\<lambda>refChild w'. let (d', c) = cloneNode (doc w') refChild
                                in appendChild M (w' \<lparr> doc := d' \<rparr>) n c) (map snd (snd s)) (fst s)))"
    by (rule appendClones_safe[OF safe_region[OF s1] n(1) safe_live[OF s1 n(2)]])
  then show ?thesis
    unfolding morphHead_def Let_def m0_def[symmetric] s_def[symmetric]
    by (rule safe_trans[OF s1])
qed

lemma askBefore_doc: "askBefore h e w = (ok, w1) \<Longrightarrow> doc w1 = doc w"
  using doc_askBefore[of h e w] by simp

lemma inside_live: "inside A d m \<Longrightarrow> m \<in> A \<and> m < nextId d"
  by (simp add: inside_def)

lemma morphNodeWith_safe:
  assumes cb: "\<And>w1 e r w2. region A W (doc w1) \<Longrightarrow> e \<in> A \<Longrightarrow> e < nextId (doc w1) \<Longrightarrow>
                 mcn w1 e r = Inr w2 \<Longrightarrow> safe A W (doc w1) (doc w2)"
    and r: "region A W (doc w)" and n: "n \<in> A" "n < nextId (doc w)"
    and res: "morphNodeWith mcn M w n ref = Inr w'"
  shows "safe A W (doc w) (doc w')"
proof -
  obtain ok w1 where ask: "askBefore (map_option (\<lambda>h d. h d n ref) (beforeNodeMorphed (options M)))
                       (BeforeNodeMorphed n ref) w = (ok, w1)"
    by (cases "askBefore (map_option (\<lambda>h d. h d n ref) (beforeNodeMorphed (options M)))
                       (BeforeNodeMorphed n ref) w")
  note d1 = askBefore_doc[OF ask]
  have r1: "region A W (doc w1)" and n1: "n < nextId (doc w1)" using r n d1 by simp_all
  show ?thesis
  proof (cases ok)
    case False
    with res ask have "w' = w1" by (simp add: morphNodeWith_def)
    then show ?thesis using safe_refl[OF r] d1 by simp
  next
    case True
    show ?thesis
    proof (cases "isElement (doc w1) n \<and> isElement (doc w1) ref
                 \<and> localName (nodes (doc w1) n) = localName (nodes (doc w1) ref)")
      case el: True
      define w2 where "w2 = (if hasAttributes (doc w1) n \<or> hasAttributes (doc w1) ref
                          then morphAttributes M w1 n ref else w1)"
      have s2: "safe A W (doc w1) (doc w2)"
        unfolding w2_def using morphAttributes_safe[OF r1 n(1) n1, of M ref] safe_refl[OF r1]
        by simp
      note r2 = safe_region[OF s2] and n2 = safe_live[OF s2 n1]
      from res ask True el
      have res2: "andThen (if isHead (doc w2) n then Inr (morphHead M w2 n ref)
                   else if hasChildNodes (doc w2) n \<or> hasChildNodes (doc w2) ref
                     then mcn w2 n ref
                   else Inr w2)
             (\<lambda>w3. Inr (tellAfter (afterNodeMorphed (options M)) (AfterNodeMorphed n ref) w3)) = Inr w'"
        unfolding morphNodeWith_def w2_def by (simp add: Let_def)
      have "safe A W (doc w2) (doc w')"
      proof (cases "isHead (doc w2) n")
        case True
        with res2 have "doc w' = doc (morphHead M w2 n ref)" by auto
        then show ?thesis using morphHead_safe[OF r2 n(1) n2, of M ref] by simp
      next
        case nh: False
        show ?thesis
        proof (cases "hasChildNodes (doc w2) n \<or> hasChildNodes (doc w2) ref")
          case True
          with res2 nh obtain w3 where w3: "mcn w2 n ref = Inr w3" and "doc w' = doc w3"
            by (cases "mcn w2 n ref") auto
          then show ?thesis using cb[OF r2 n(1) n2 w3] by simp
        next
          case False
          with res2 nh have "doc w' = doc w2" by auto
          then show ?thesis using safe_refl[OF r2] by simp
        qed
      qed
      then show ?thesis using safe_trans[OF s2] d1 by simp
    next
      case nel: False
      show ?thesis
      proof (cases "nodeType (nodes (doc w1) n) = nodeType (nodes (doc w1) ref)
                      \<and> nodeValue (nodes (doc w1) n) \<noteq> None
                      \<and> nodeValue (nodes (doc w1) ref) \<noteq> None")
        case True
        with res ask \<open>ok\<close> nel
        have "doc w' = doc (updateProperty M w1 n NodeValue
                            (case nodeValue (nodes (doc w1) ref) of
                               None \<Rightarrow> PNull | Some s \<Rightarrow> PStr s))"
          unfolding morphNodeWith_def by auto
        then show ?thesis using updateProperty_safe[OF r1 n(1) n1, of M NodeValue] d1 by simp
      next
        case False
        obtain d' c where c: "cloneNode (doc w1) ref = (d', c)" by (cases "cloneNode (doc w1) ref")
        from res ask \<open>ok\<close> nel False c
        have w': "doc w' = doc (replaceNode M (w1 \<lparr> doc := d' \<rparr>) n c)"
          unfolding morphNodeWith_def by auto
        note cr = cloneNode_region[OF r1 c]
        have "safe A W (doc (w1 \<lparr> doc := d' \<rparr>)) (doc (replaceNode M (w1 \<lparr> doc := d' \<rparr>) n c))"
          by (rule replaceNode_safe) (use cr n n1 in simp_all)
        then show ?thesis unfolding w' using safe_trans[OF safeI[OF cr(1,2)]] d1 by simp
      qed
    qed
  qed
qed

lemma morphChildNodesStep_safe:
  assumes cbN: "\<And>w1 m r w2. region A W (doc w1) \<Longrightarrow> m \<in> A \<Longrightarrow> m < nextId (doc w1) \<Longrightarrow>
                 mn w1 m r = Inr w2 \<Longrightarrow> safe A W (doc w1) (doc w2)"
    and cbE: "\<And>w1 c r p w2. region A W (doc w1) \<Longrightarrow> inside A (doc w1) c \<Longrightarrow> p \<in> A \<Longrightarrow>
                 p < nextId (doc w1) \<Longrightarrow> me w1 c r p = Inr w2 \<Longrightarrow> safe A W (doc w1) (doc w2)"
    and r: "region A W (doc w)" and e: "element \<in> A" "element < nextId (doc w)"
    and res: "morphChildNodesStep mn me M w element ref i = Inr w'"
  shows "safe A W (doc w) (doc w')"
proof (cases "i < length (childNodes (nodes (doc w) element))")
  case True
  define child where "child = childNodes (nodes (doc w) element) ! i"
  define refChild where "refChild = childNodes (nodes (doc w) ref) ! i"
  have "child \<in> set (childNodes (nodes (doc w) element))" unfolding child_def using True by simp
  then have c: "inside A (doc w) child" by (rule inside_child[OF r e])
  note cl = inside_live[OF c]
  show ?thesis
  proof (cases "isElement (doc w) child \<and> isElement (doc w) refChild
           \<and> localName (nodes (doc w) child) = localName (nodes (doc w) refChild)")
    case el: True
    show ?thesis
    proof (cases "isHead (doc w) child")
      case True
      with res el \<open>i < length (childNodes (nodes (doc w) element))\<close>
      have "w' = morphHead M w child refChild"
        unfolding morphChildNodesStep_def child_def refChild_def by (simp add: Let_def)
      then show ?thesis using morphHead_safe[OF r cl[THEN conjunct1] cl[THEN conjunct2]] by simp
    next
      case False
      with res el \<open>i < length (childNodes (nodes (doc w) element))\<close>
      have "me w child refChild element = Inr w'"
        unfolding morphChildNodesStep_def child_def refChild_def by (simp add: Let_def)
      then show ?thesis by (rule cbE[OF r c e])
    qed
  next
    case False
    with res \<open>i < length (childNodes (nodes (doc w) element))\<close>
    have "mn w child refChild = Inr w'"
      unfolding morphChildNodesStep_def child_def refChild_def by (auto simp: Let_def)
    then show ?thesis by (rule cbN[OF r cl[THEN conjunct1] cl[THEN conjunct2]])
  qed
next
  case False
  obtain d' c where c: "cloneNode (doc w) (childNodes (nodes (doc w) ref) ! i) = (d', c)"
    by (cases "cloneNode (doc w) (childNodes (nodes (doc w) ref) ! i)")
  with res False have "w' = appendChild M (w \<lparr> doc := d' \<rparr>) element c"
    unfolding morphChildNodesStep_def by (simp add: Let_def)
  then show ?thesis using appendClone_safe[OF r e c] by simp
qed

lemma morphChildElementWith_safe:
  assumes cbN: "\<And>w1 m r w2. region A W (doc w1) \<Longrightarrow> m \<in> A \<Longrightarrow> m < nextId (doc w1) \<Longrightarrow>
                 mn w1 m r = Inr w2 \<Longrightarrow> safe A W (doc w1) (doc w2)"
    and r: "region A W (doc w)" and c: "inside A (doc w) child"
    and p: "parent \<in> A" "parent < nextId (doc w)"
    and res: "morphChildElementWith mn k M w child ref parent = Inr w'"
  shows "safe A W (doc w) (doc w')"
proof -
  obtain ok w1 where ask: "askBefore (map_option (\<lambda>h d. h d child ref) (beforeNodeMorphed (options M)))
                       (BeforeNodeMorphed child ref) w = (ok, w1)"
    by (cases "askBefore (map_option (\<lambda>h d. h d child ref) (beforeNodeMorphed (options M)))
                       (BeforeNodeMorphed child ref) w")
  note d1 = askBefore_doc[OF ask]
  have r1: "region A W (doc w1)" and p1: "parent < nextId (doc w1)" and c1: "inside A (doc w1) child"
    using r p c d1 by simp_all
  have "safe A W (doc w1) (doc w')"
  proof (cases ok)
    case False
    with res ask have "w' = w1" by (simp add: morphChildElementWith_def)
    then show ?thesis using safe_refl[OF r1] by simp
  next
    case True
    obtain fr where fm: "findMatch k M (doc w1) ref (Some child) None = Inr fr"
      using res ask True
      by (cases "findMatch k M (doc w1) ref (Some child) None")
         (simp_all add: morphChildElementWith_def)
    have ins: "inside A (doc w1) m" if "fr = Matched m \<or> fr = Exhausted (Some m)" for m
      by (rule findMatch_inside[OF r1 _ _ fm that]) (use c1 in simp_all)
    have move: "safe A W (doc w1) (doc w3)"
      if body: "andThen (insertBefore k M w1 parent m child) (\<lambda>w2. mn w2 m ref) = Inr w3"
        and m: "fr = Matched m \<or> fr = Exhausted (Some m)" for m w3
    proof -
      from body obtain w2 where ib: "insertBefore k M w1 parent m child = Inr w2"
        and mm: "mn w2 m ref = Inr w3"
        by (cases "insertBefore k M w1 parent m child") simp_all
      note s2 = insertBefore_safe[OF r1 p(1) p1 ins[OF m] ib]
      note ml = inside_live[OF ins[OF m]]
      show ?thesis
        by (rule safe_trans[OF s2 cbN[OF safe_region[OF s2] ml[THEN conjunct1]
              safe_live[OF s2 ml[THEN conjunct2]] mm]])
    qed
    show ?thesis
    proof (cases fr)
      case (Matched m)
      with res ask True fm
      have "andThen (insertBefore k M w1 parent m child) (\<lambda>w2. mn w2 m ref) = Inr w'"
        by (simp add: morphChildElementWith_def)
      then show ?thesis using Matched by (intro move) simp_all
    next
      case (Exhausted t)
      show ?thesis
      proof (cases t)
        case (Some m)
        with res ask True fm Exhausted
        obtain w3 where "andThen (insertBefore k M w1 parent m child) (\<lambda>w2. mn w2 m ref) = Inr w3"
          and "doc w' = doc w3"
          by (cases "insertBefore k M w1 parent m child")
             (auto simp: morphChildElementWith_def andThen_def split: sum.splits)
        then show ?thesis using move[of m w3] Exhausted Some by simp
      next
        case None
        obtain d' new where cl: "cloneNode (doc w1) ref = (d', new)"
          by (cases "cloneNode (doc w1) ref")
        obtain ok2 w2 where ask2: "askBefore
                         (map_option (\<lambda>h d. h d new) (beforeNodeAdded (options M)))
                         (BeforeNodeAdded new) (w1 \<lparr> doc := d' \<rparr>) = (ok2, w2)"
          by (cases "askBefore
                         (map_option (\<lambda>h d. h d new) (beforeNodeAdded (options M)))
                         (BeforeNodeAdded new) (w1 \<lparr> doc := d' \<rparr>)")
        have d2: "doc w2 = d'" using askBefore_doc[OF ask2] by simp
        note cr = cloneNode_region[OF r1 cl]
        have s2: "safe A W (doc w1) (doc w2)" unfolding d2 by (rule safeI[OF cr(1,2)])
        show ?thesis
        proof (cases ok2)
          case False
          with res ask True fm Exhausted None cl ask2 have "doc w' = doc w2"
            by (auto simp: morphChildElementWith_def)
          then show ?thesis using s2 by simp
        next
          case ok2: True
          with res ask True fm Exhausted None cl ask2
          obtain w3 where ib: "insertBefore k M w2 parent new child = Inr w3" and "doc w' = doc w3"
            by (cases "insertBefore k M w2 parent new child")
               (auto simp: morphChildElementWith_def)
          have "safe A W (doc w2) (doc w3)"
          proof (rule insertBefore_safe[OF _ p(1) _ _ ib])
            show "region A W (doc w2)" unfolding d2 by (rule cr(1))
            show "parent < nextId (doc w2)" unfolding d2 using p1 cr(6) by simp
            show "inside A (doc w2) new" unfolding d2 by (rule inside_orphan[OF cr(3,4,5)])
          qed
          then show ?thesis using safe_trans[OF s2] \<open>doc w' = doc w3\<close> by simp
        qed
      qed
    qed
  qed
  then show ?thesis using d1 by simp
qed

lemma morphAll_safe:
  "region A W (doc w) \<Longrightarrow> callOk A (doc w) c \<Longrightarrow> morphAll k M c w = Inr w' \<Longrightarrow>
   safe A W (doc w) (doc w')"
proof (induction k arbitrary: c w w')
  case 0
  then show ?case by simp
next
  case (Suc k)
  note r = Suc.prems(1) and ok = Suc.prems(2) and res = Suc.prems(3)
  have ihN: "safe A W (doc w1) (doc w2)"
    if "region A W (doc w1)" "m \<in> A" "m < nextId (doc w1)" "morphAll k M (CallMorphNode m x) w1 = Inr w2"
    for w1 m x w2
    by (rule Suc.IH[OF that(1) _ that(4)]) (use that in simp)
  show ?case
  proof (cases c)
    case (CallMorphNode n ref)
    with res have res': "morphNodeWith (\<lambda>w' e r. morphAll k M (CallMorphChildNodes e r) w') M w n ref = Inr w'"
      by simp
    from ok CallMorphNode have n: "n \<in> A" "n < nextId (doc w)" by simp_all
    show ?thesis
    proof (rule morphNodeWith_safe[OF _ r n res'])
      fix w1 e x w2
      assume a: "region A W (doc w1)" "e \<in> A" "e < nextId (doc w1)"
        "morphAll k M (CallMorphChildNodes e x) w1 = Inr w2"
      show "safe A W (doc w1) (doc w2)"
        by (rule Suc.IH[OF a(1) _ a(4)]) (use a in simp)
    qed
  next
    case (CallMorphChildNodes element ref)
    from ok CallMorphChildNodes have e: "element \<in> A" "element < nextId (doc w)" by simp_all
    from res CallMorphChildNodes obtain w1
      where l: "morphAll k M (CallMorphChildNodesLoop element ref 0) w = Inr w1"
        and x: "removeExcessChildren k M w1 element ref = Inr w'"
      by (cases "morphAll k M (CallMorphChildNodesLoop element ref 0) w") simp_all
    have s1: "safe A W (doc w) (doc w1)"
      by (rule Suc.IH[OF r _ l]) (use e in simp)
    show ?thesis
      by (rule safe_trans[OF s1 removeExcessChildren_safe[OF safe_region[OF s1] e(1)
              safe_live[OF s1 e(2)] x]])
  next
    case (CallMorphChildNodesLoop element ref i)
    from ok CallMorphChildNodesLoop have e: "element \<in> A" "element < nextId (doc w)" by simp_all
    show ?thesis
    proof (cases "i < length (childNodes (nodes (doc w) ref))")
      case False
      with res CallMorphChildNodesLoop have "w' = w" by simp
      then show ?thesis using safe_refl[OF r] by simp
    next
      case True
      with res CallMorphChildNodesLoop obtain w1
        where st: "morphChildNodesStep (\<lambda>w' n r. morphAll k M (CallMorphNode n r) w')
                 (\<lambda>w' c r p. morphAll k M (CallMorphChildElement c r p) w') M w element ref i = Inr w1"
          and l: "morphAll k M (CallMorphChildNodesLoop element ref (Suc i)) w1 = Inr w'"
        by (cases "morphChildNodesStep (\<lambda>w' n r. morphAll k M (CallMorphNode n r) w')
                 (\<lambda>w' c r p. morphAll k M (CallMorphChildElement c r p) w') M w element ref i")
           simp_all
      have s1: "safe A W (doc w) (doc w1)"
      proof (rule morphChildNodesStep_safe[OF _ _ r e st])
        fix w1 m x w2
        assume "region A W (doc w1)" "m \<in> A" "m < nextId (doc w1)"
          "morphAll k M (CallMorphNode m x) w1 = Inr w2"
        then show "safe A W (doc w1) (doc w2)" by (rule ihN)
      next
        fix w1 ch x p w2
        assume a: "region A W (doc w1)" "inside A (doc w1) ch" "p \<in> A" "p < nextId (doc w1)"
          "morphAll k M (CallMorphChildElement ch x p) w1 = Inr w2"
        show "safe A W (doc w1) (doc w2)"
          by (rule Suc.IH[OF a(1) _ a(5)]) (use a in simp)
      qed
      have s2: "safe A W (doc w1) (doc w')"
        by (rule Suc.IH[OF safe_region[OF s1] _ l]) (use e safe_live[OF s1 e(2)] in simp)
      show ?thesis by (rule safe_trans[OF s1 s2])
    qed
  next
    case (CallMorphChildElement child ref parent)
    from ok CallMorphChildElement
    have c: "inside A (doc w) child" and p: "parent \<in> A" "parent < nextId (doc w)" by simp_all
    from res CallMorphChildElement
    have res': "morphChildElementWith (\<lambda>w' n r. morphAll k M (CallMorphNode n r) w') k M w
            child ref parent = Inr w'" by simp
    show ?thesis
    proof (rule morphChildElementWith_safe[OF _ r c p res'])
      fix w1 m x w2
      assume "region A W (doc w1)" "m \<in> A" "m < nextId (doc w1)"
        "morphAll k M (CallMorphNode m x) w1 = Inr w2"
      then show "safe A W (doc w1) (doc w2)" by (rule ihN)
    qed
  qed
qed

lemma morph_node_entry:
  assumes "morph parse k w n (RefNode r) opts = (None, w1)"
  shows "\<exists>M'. frames w1 = frames w @ [(M', n, r)]"
    and "doc w1 = doc w
         \<or> doc w1 = updNode (updNode (doc w) n (\<lambda>x. x \<lparr> ariaBusy := Some ''true'' \<rparr>)) n
                       (\<lambda>x. x \<lparr> ariaBusy := None \<rparr>)"
  using assms
  by (auto simp: morph_def Morph_morph_def Let_def andThen_def split: if_splits sum.splits)

lemma keeps_nodes: "keeps W d d' \<Longrightarrow> set xs \<inter> W = {} \<Longrightarrow> map (nodes d') xs = map (nodes d) xs"
  unfolding keeps_def by auto

text \<open>
  Claim C9: the reference tree is never mutated.  Let the live node \<open>n\<close> lie in a region
  \<open>A\<close> of the store that is closed under children, let \<open>W\<close> hold \<open>A\<close> and the parent of
  \<open>n\<close>, and let the reference \<open>r\<close> and its descendants lie outside \<open>W\<close>.  The pre-passes only
  read the tree.  After the call of \<^verbatim>\<open>morph\<close> (lines 51--68, which set and clear
  \<^verbatim>\<open>aria-busy\<close> on \<open>n\<close>) and after the mutation pass of the next animation frame, when it
  returns, every node of the reference has the record it had before: type, name,
  attributes, properties, text, children and parent.  The engine writes to the live
  subtree, to the parent of \<open>n\<close> (line 315) and to the clones that it allocates.
\<close>

theorem reference_never_mutated:
  assumes live: "region A W (doc w)" "n \<in> A" "n < nextId (doc w)"
    and idle: "frames w = []"
    and apart: "set (r # descendants (doc w) r) \<inter> W = {}"
    and entry: "morph parse k w n (RefNode r) opts = (None, w1)"
    and pass: "animationFrame j w1 = Inr w2"
  shows "map (nodes (doc w1)) (r # descendants (doc w) r)
           = map (nodes (doc w)) (r # descendants (doc w) r)
       \<and> map (nodes (doc w2)) (r # descendants (doc w) r)
           = map (nodes (doc w)) (r # descendants (doc w) r)"
proof -
  have nW: "n \<in> W" using live(1,2) region_sub by blast
  from morph_node_entry(1)[OF entry] idle obtain M' where fr: "frames w1 = [(M', n, r)]" by auto
  have s1: "safe A W (doc w) (doc w1)"
    using morph_node_entry(2)[OF entry]
  proof
    assume "doc w1 = doc w"
    then show ?thesis using safe_refl[OF live(1)] by simp
  next
    assume d: "doc w1 = updNode (updNode (doc w) n (\<lambda>x. x \<lparr> ariaBusy := Some ''true'' \<rparr>)) n
                       (\<lambda>x. x \<lparr> ariaBusy := None \<rparr>)"
    have "region A W (updNode (doc w) n (\<lambda>x. x \<lparr> ariaBusy := Some ''true'' \<rparr>))"
      by (rule region_updNode_data[OF live(1)]) simp_all
    then have "region A W (doc w1)" unfolding d by (rule region_updNode_data) simp_all
    moreover have "keeps W (doc w) (doc w1)" unfolding d by (rule keeps_two[OF nW nW])
    ultimately show ?thesis by (rule safeI)
  qed
  from pass fr have run: "morphAll j M' (CallMorphNode n r) (w1 \<lparr> frames := [] \<rparr>) = Inr w2"
    by (cases "morphNode j M' (w1 \<lparr> frames := [] \<rparr>) n r")
       (simp_all add: animationFrame_def morphNode_def)
  have s2: "safe A W (doc (w1 \<lparr> frames := [] \<rparr>)) (doc w2)"
    by (rule morphAll_safe[OF _ _ run]) (use safe_region[OF s1] safe_live[OF s1 live(3)] live(2) in simp_all)
  then have s12: "safe A W (doc w) (doc w2)" using safe_trans[OF s1] by simp
  from s1 s12 have "keeps W (doc w) (doc w1)" "keeps W (doc w) (doc w2)" by (simp_all add: safe_def)
  then show ?thesis using keeps_nodes[OF _ apart] by blast
qed

lemma listDom_region: "region liveList liveList listDom"
proof (rule regionI)
  show "liveList \<subseteq> liveList" by simp
next
  fix a c
  assume "a \<in> liveList" "a < nextId listDom" "c \<in> set (childNodes (nodes listDom a))"
  then show "c \<in> liveList \<and> c < nextId listDom \<and> parentNode (nodes listDom c) = Some a"
    by (auto simp: liveList_def listDom_def elementNode_def textNode_def blank_def)
next
  fix a q
  assume "a \<in> liveList" "a < nextId listDom" "parentNode (nodes listDom a) = Some q"
  then show "q \<in> liveList"
    by (auto simp: liveList_def listDom_def elementNode_def textNode_def blank_def)
next
  fix a assume "nextId listDom \<le> a"
  then show "a \<in> liveList" by (simp add: liveList_def listDom_def)
qed

lemma listDom_reference: "20 # descendants listDom 20 = [20, 21, 22, 23, 24]"
  by code_simp

lemma listDom_run:
  "fst (morph emptyParser 9 (start listDom) 10 (RefNode 20) noHooks) = None"
  "\<not> isl (animationFrame 9 (snd (morph emptyParser 9 (start listDom) 10 (RefNode 20) noHooks)))"
  by code_simp+

theorem reference_never_mutated_witness:
  "fst (morph emptyParser 9 (start listDom) 10 (RefNode 20) noHooks) = None
   \<and> \<not> isl (animationFrame 9 (snd (morph emptyParser 9 (start listDom) 10 (RefNode 20) noHooks)))
   \<and> set (20 # descendants listDom 20) \<inter> liveList = {}
   \<and> map (nodes (doc (snd (morph emptyParser 9 (start listDom) 10 (RefNode 20) noHooks))))
       (20 # descendants listDom 20) = map (nodes listDom) (20 # descendants listDom 20)
   \<and> map (nodes (doc (projr (animationFrame 9
           (snd (morph emptyParser 9 (start listDom) 10 (RefNode 20) noHooks))))))
       (20 # descendants listDom 20) = map (nodes listDom) (20 # descendants listDom 20)"
proof -
  define w1 where "w1 = snd (morph emptyParser 9 (start listDom) 10 (RefNode 20) noHooks)"
  have entry: "morph emptyParser 9 (start listDom) 10 (RefNode 20) noHooks = (None, w1)"
    using listDom_run(1) unfolding w1_def by (metis prod.collapse)
  have pass: "animationFrame 9 w1 = Inr (projr (animationFrame 9 w1))"
    using listDom_run(2) unfolding w1_def by simp
  have apart: "set (20 # descendants (doc (start listDom)) 20) \<inter> liveList = {}"
    unfolding start_def using listDom_reference by (simp add: liveList_def)
  have live: "region liveList liveList (doc (start listDom))" "10 \<in> liveList"
    "10 < nextId (doc (start listDom))" "frames (start listDom) = []"
    using listDom_region by (simp_all add: start_def liveList_def listDom_def)
  from reference_never_mutated[OF live apart entry pass] apart listDom_run
  show ?thesis unfolding w1_def by (simp add: start_def)
qed

section \<open>Morphing a tree against an equal one\<close>

lemma quiet_iff:
  "quiet w w' \<longleftrightarrow> doc w' = doc w \<and> frames w' = frames w
      \<and> (\<exists>es. trace w' = trace w @ es \<and> list_all morphedEvent es)"
proof
  assume q: "quiet w w'"
  then have "trace w' = trace w @ drop (length (trace w)) (trace w')"
    unfolding quiet_def by (metis append_take_drop_id)
  with q show "doc w' = doc w \<and> frames w' = frames w
      \<and> (\<exists>es. trace w' = trace w @ es \<and> list_all morphedEvent es)"
    unfolding quiet_def by blast
next
  assume "doc w' = doc w \<and> frames w' = frames w
      \<and> (\<exists>es. trace w' = trace w @ es \<and> list_all morphedEvent es)"
  then show "quiet w w'" unfolding quiet_def by auto
qed

lemma quiet_refl [simp]: "quiet w w"
  by (simp add: quiet_iff)











declare morphHeadLoop.simps [simp del]






































end
